theory Spec2Isabelle
  imports Main "HOL-Library.AList"
begin

section \<open>ASFclaim: response parsers, connectivity gate, claim cycle, webhook queue\<close>

text \<open>
  A shallow embedding of \<^verbatim>\<open>index.js\<close>. Pure functions of the script are HOL functions;
  the HTTP calls, the file system and the timers are inputs of the model (replies supplied
  by an environment) and every call the script makes is recorded in a trace.
\<close>

subsection \<open>JavaScript strings\<close>

text \<open>
  A JavaScript string is a sequence of UTF-16 code units. A code unit is modelled by its
  number; \<open>js\<close> turns an ASCII literal of the source into that sequence.
\<close>

type_synonym code_unit = nat
type_synonym jsstring = "code_unit list"

definition js :: "string \<Rightarrow> jsstring" where
  "js s = map of_char s"

text \<open>
  \<^verbatim>\<open>LineTerminator\<close>: LF, CR, U+2028, U+2029. \<^verbatim>\<open>WhiteSpace\<close>: TAB, VT, FF, U+FEFF and the
  space separators (U+0020, U+00A0, U+1680, U+2000..U+200A, U+202F, U+205F, U+3000).
\<close>

definition isLineTerminator :: "code_unit \<Rightarrow> bool" where
  "isLineTerminator c = (c \<in> set [10, 13, 8232, 8233])"

definition isWhiteSpace :: "code_unit \<Rightarrow> bool" where
  "isWhiteSpace c =
     (c \<in> set [9, 11, 12, 32, 160, 5760, 8239, 8287, 12288, 65279] \<or> (8192 \<le> c \<and> c \<le> 8202))"

text \<open>\<^verbatim>\<open>String.prototype.trim\<close> strips white space and line terminators at both ends.\<close>

definition trim :: "jsstring \<Rightarrow> jsstring" where
  "trim s =
     rev (dropWhile (\<lambda>c. isWhiteSpace c \<or> isLineTerminator c)
       (rev (dropWhile (\<lambda>c. isWhiteSpace c \<or> isLineTerminator c) s)))"

text \<open>
  \<^verbatim>\<open>s.split("\n")\<close>: the pieces between line feeds; the empty string gives one empty piece.
\<close>

fun split_nl :: "jsstring \<Rightarrow> jsstring list" where
  "split_nl [] = [[]]"
| "split_nl (c # cs) =
     (if c = 10 then [] # split_nl cs
      else (case split_nl cs of [] \<Rightarrow> [[c]] | l # ls \<Rightarrow> (c # l) # ls))"

text \<open>\<^verbatim>\<open>s.includes(t)\<close>: \<open>t\<close> occurs in \<open>s\<close> as a contiguous run of code units.\<close>

fun js_includes :: "jsstring \<Rightarrow> jsstring \<Rightarrow> bool" where
  "js_includes [] t = (t = [])"
| "js_includes (c # cs) t = (take (length t) (c # cs) = t \<or> js_includes cs t)"

subsection \<open>Regular expressions with backtracking\<close>

text \<open>
  The three regular expressions of the script are values of \<open>re\<close>, and \<open>matcher\<close> is the
  backtracking matcher of the language definition: a matcher takes the state (the rest
  of the input and the captures so far) and a continuation, and alternatives are tried in
  priority order. The constructors are the ones the script's patterns use: pattern
  characters, the character classes \<^verbatim>\<open>.\<close>, \<^verbatim>\<open>\s\<close>, \<^verbatim>\<open>\w\<close>, \<^verbatim>\<open>\d\<close> and \<^verbatim>\<open>[...]\<close>, greedy and lazy
  repetition of a class, greedy \<^verbatim>\<open>?\<close>, sequence, alternative, capture groups, \<^verbatim>\<open>^\<close> and \<^verbatim>\<open>$\<close>.

  All three patterns carry the flag \<^verbatim>\<open>i\<close> and not the flag \<^verbatim>\<open>u\<close>: a pattern character
  matches a code unit with the same canonical form. Every pattern character of the script
  is ASCII, and a code unit from 128 on never canonicalises to an ASCII one, so the
  canonical form only has to fold \<^verbatim>\<open>a-z\<close> to \<^verbatim>\<open>A-Z\<close>. The classes are not changed by the flag.
\<close>

datatype cls = Dot | Space | Word | Digit | OneOf "code_unit list"

fun cls_matches :: "cls \<Rightarrow> code_unit \<Rightarrow> bool" where
  "cls_matches Dot c = (\<not> isLineTerminator c)"
| "cls_matches Space c = (isWhiteSpace c \<or> isLineTerminator c)"
| "cls_matches Word c =
     ((97 \<le> c \<and> c \<le> 122) \<or> (65 \<le> c \<and> c \<le> 90) \<or> (48 \<le> c \<and> c \<le> 57) \<or> c = 95)"
| "cls_matches Digit c = (48 \<le> c \<and> c \<le> 57)"
| "cls_matches (OneOf cs) c = (c \<in> set cs)"

definition canonicalize :: "code_unit \<Rightarrow> code_unit" where
  "canonicalize c = (if 97 \<le> c \<and> c \<le> 122 then c - 32 else c)"

datatype re =
    Chr code_unit
  | One cls
  | Star cls
  | Plus cls
  | StarLazy cls
  | PlusLazy cls
  | Opt re
  | Seq re re
  | Alt re re
  | Group nat re
  | Bol
  | Eol
  | Eps

type_synonym captures = "nat \<Rightarrow> jsstring option"
type_synonym mstate = "jsstring \<times> captures"
type_synonym cont = "mstate \<Rightarrow> mstate option"

text \<open>
  Greedy repetition of a class, at least \<open>n\<close> times: take one more code unit first, and
  only when the rest fails after that stop here. Lazy repetition: stop here first.
\<close>

fun repGreedy :: "cls \<Rightarrow> nat \<Rightarrow> captures \<Rightarrow> cont \<Rightarrow> jsstring \<Rightarrow> mstate option" where
  "repGreedy p n cs k [] = (if n = 0 then k ([], cs) else None)"
| "repGreedy p n cs k (x # xs) =
     (if cls_matches p x
      then (case repGreedy p (n - 1) cs k xs of
              Some r \<Rightarrow> Some r
            | None \<Rightarrow> if n = 0 then k (x # xs, cs) else None)
      else if n = 0 then k (x # xs, cs) else None)"

fun repLazy :: "cls \<Rightarrow> nat \<Rightarrow> captures \<Rightarrow> cont \<Rightarrow> jsstring \<Rightarrow> mstate option" where
  "repLazy p n cs k [] = (if n = 0 then k ([], cs) else None)"
| "repLazy p n cs k (x # xs) =
     (if n = 0
      then (case k (x # xs, cs) of
              Some r \<Rightarrow> Some r
            | None \<Rightarrow> if cls_matches p x then repLazy p 0 cs k xs else None)
      else if cls_matches p x then repLazy p (n - 1) cs k xs else None)"

text \<open>
  \<open>matcher r inp k s\<close>: match \<open>r\<close> at state \<open>s\<close> of the input \<open>inp\<close>, then continue with
  \<open>k\<close>. \<open>Opt\<close> is the greedy \<^verbatim>\<open>?\<close>: the group is tried first, an iteration that consumes
  nothing is refused, and skipping the group is the second choice. No group of the
  script's patterns sits inside a repetition that can run twice, so the reset of captures
  at the start of an iteration has nothing to reset.
\<close>

primrec matcher :: "re \<Rightarrow> jsstring \<Rightarrow> cont \<Rightarrow> mstate \<Rightarrow> mstate option" where
  "matcher (Chr p) inp k s =
     (case fst s of
        [] \<Rightarrow> None
      | c # cs \<Rightarrow> if canonicalize c = canonicalize p then k (cs, snd s) else None)"
| "matcher (One p) inp k s =
     (case fst s of
        [] \<Rightarrow> None
      | c # cs \<Rightarrow> if cls_matches p c then k (cs, snd s) else None)"
| "matcher (Star p) inp k s = repGreedy p 0 (snd s) k (fst s)"
| "matcher (Plus p) inp k s = repGreedy p 1 (snd s) k (fst s)"
| "matcher (StarLazy p) inp k s = repLazy p 0 (snd s) k (fst s)"
| "matcher (PlusLazy p) inp k s = repLazy p 1 (snd s) k (fst s)"
| "matcher (Opt r) inp k s =
     (case matcher r inp (\<lambda>s'. if length (fst s') = length (fst s) then None else k s') s of
        Some res \<Rightarrow> Some res
      | None \<Rightarrow> k s)"
| "matcher (Seq a b) inp k s = matcher a inp (matcher b inp k) s"
| "matcher (Alt a b) inp k s =
     (case matcher a inp k s of Some res \<Rightarrow> Some res | None \<Rightarrow> matcher b inp k s)"
| "matcher (Group n r) inp k s =
     matcher r inp
       (\<lambda>s'. k (fst s', (snd s')(n \<mapsto> take (length (fst s) - length (fst s')) (fst s)))) s"
| "matcher Bol inp k s = (if length (fst s) = length inp then k s else None)"
| "matcher Eol inp k s = (if fst s = [] then k s else None)"
| "matcher Eps inp k s = k s"

fun seqs :: "re list \<Rightarrow> re" where
  "seqs [] = Eps"
| "seqs (r # rs) = Seq r (seqs rs)"

definition lit :: "string \<Rightarrow> re" where
  "lit s = seqs (map (\<lambda>c. Chr (of_char c)) s)"

text \<open>
  \<^verbatim>\<open>str.match(regex)\<close> for a regular expression without the flags \<^verbatim>\<open>g\<close> and \<^verbatim>\<open>y\<close>: the
  match is tried at index 0, 1, ... up to the length of the string, and the first index
  where it succeeds gives the result; \<^verbatim>\<open>null\<close> is \<open>None\<close>.
\<close>

fun execFrom :: "re \<Rightarrow> jsstring \<Rightarrow> jsstring \<Rightarrow> captures option" where
  "execFrom r inp [] = map_option snd (matcher r inp Some ([], Map.empty))"
| "execFrom r inp (x # xs) =
     (case matcher r inp Some (x # xs, Map.empty) of
        Some res \<Rightarrow> Some (snd res)
      | None \<Rightarrow> execFrom r inp xs)"

definition match :: "jsstring \<Rightarrow> re \<Rightarrow> captures option" where
  "match str r = execFrom r str str"

text \<open>
  \<^verbatim>\<open>/'?<(?<user>.+)>\s*(?:.*ID:\s+(?<id>\w+\/\d+)\s.+Status:\s+)?(?<status>.*?)(?:\\n|\n)?(?:'.*)?$/i\<close>
  (39 is the apostrophe, 60 and 62 the angle brackets, 47 the slash, 92 the backslash).
\<close>

definition resultRegex :: re where
  "resultRegex = seqs
     [Opt (Chr 39), Chr 60, Group 1 (Plus Dot), Chr 62, Star Space,
      Opt (seqs [Star Dot, lit ''ID:'', Plus Space,
                 Group 2 (seqs [Plus Word, Chr 47, Plus Digit]),
                 One Space, Plus Dot, lit ''Status:'', Plus Space]),
      Group 3 (StarLazy Dot),
      Opt (Alt (Seq (Chr 92) (Chr 110)) (Chr 10)),
      Opt (Seq (Chr 39) (Star Dot)),
      Eol]"

text \<open>
  \<^verbatim>\<open>/^.*<(?<user>.*)>\s*(?<status>.+?)[\.!?]*(?::.+)?(?:\\n.\s+\+)?$/i\<close>
  (46, 33, 63 are \<^verbatim>\<open>.\<close>, \<^verbatim>\<open>!\<close>, \<^verbatim>\<open>?\<close>; 58 the colon; 43 the plus sign).
\<close>

definition statusRegex :: re where
  "statusRegex = seqs
     [Bol, Star Dot, Chr 60, Group 1 (Star Dot), Chr 62, Star Space,
      Group 2 (PlusLazy Dot),
      Star (OneOf [46, 33, 63]),
      Opt (Seq (Chr 58) (Plus Dot)),
      Opt (seqs [Chr 92, Chr 110, One Dot, Plus Space, Chr 43]),
      Eol]"

text \<open>\<^verbatim>\<open>/Bot is connecting to Steam network/i\<close>\<close>

definition connectingRegex :: re where
  "connectingRegex = lit ''Bot is connecting to Steam network''"

subsection \<open>Objects used as dictionaries\<close>

text \<open>
  \<^verbatim>\<open>botResults\<close> and \<^verbatim>\<open>statusInfo.user\<close> start as the object literal \<^verbatim>\<open>{}\<close> and are filled by
  \<^verbatim>\<open>obj[key] = value\<close> with an object as the value. For every key but one this creates or
  overwrites an own property, which keeps the place of its first insertion. The key
  \<^verbatim>\<open>__proto__\<close> is the accessor inherited from \<^verbatim>\<open>Object.prototype\<close>: the assignment calls
  its setter, which replaces the prototype of \<^verbatim>\<open>obj\<close> by the value and creates no own
  property. \<^verbatim>\<open>Object.keys\<close> and \<^verbatim>\<open>Object.values\<close> list own properties only. (The order
  in which they list keys that are array indices is not modelled; nothing here depends on
  that order.)
\<close>

record 'v js_object =
  own :: "(jsstring \<times> 'v) list"
  proto :: "'v option"

definition empty_object :: "'v js_object" where
  "empty_object = \<lparr>own = [], proto = None\<rparr>"

definition js_assign :: "'v js_object \<Rightarrow> jsstring \<Rightarrow> 'v \<Rightarrow> 'v js_object" where
  "js_assign obj key v =
     (if key = js ''__proto__'' then obj\<lparr>proto := Some v\<rparr>
      else obj\<lparr>own := AList.update key v (own obj)\<rparr>)"

definition object_keys :: "'v js_object \<Rightarrow> jsstring list" where
  "object_keys obj = map fst (own obj)"

definition object_values :: "'v js_object \<Rightarrow> 'v list" where
  "object_values obj = map snd (own obj)"

subsection \<open>parseASFResult\<close>

text \<open>
  The value stored for a bot: \<^verbatim>\<open>{ id: matchRes[2], status: ... }\<close>; \<^verbatim>\<open>id\<close> is \<^verbatim>\<open>undefined\<close>
  (\<open>None\<close>) when the optional group did not take part in the match.
\<close>

record bot_result =
  bot_id :: "jsstring option"
  bot_status :: jsstring

text \<open>
  \<open>resultMatch line\<close> is \<^verbatim>\<open>lines[i].match(...)\<close> read as \<^verbatim>\<open>(matchRes[1], matchRes[2],
  matchRes[3])\<close>. Groups 1 and 3 take part in every match (lemma
  \<open>resultMatch_groups\<close> below), so the last case is never reached.
\<close>

definition resultMatch :: "jsstring \<Rightarrow> (jsstring \<times> jsstring option \<times> jsstring) option" where
  "resultMatch line =
     (case match line resultRegex of
        None \<Rightarrow> None
      | Some m \<Rightarrow>
          (case (m 1, m 3) of
             (Some u, Some st) \<Rightarrow> Some (u, m 2, st)
           | _ \<Rightarrow> None))"

definition parseASFResult_step :: "jsstring \<Rightarrow> bot_result js_object \<Rightarrow> bot_result js_object" where
  "parseASFResult_step line botResults =
     (case resultMatch line of
        None \<Rightarrow> botResults
      | Some (u, i, st) \<Rightarrow>
          js_assign botResults u
            \<lparr>bot_id = i,
             bot_status = (if st \<noteq> js ''OK'' then st else js ''OK -> Not available for this account'')\<rparr>)"

definition parseASFResult :: "jsstring \<Rightarrow> bot_result js_object" where
  "parseASFResult result = fold parseASFResult_step (split_nl result) empty_object"

subsection \<open>parseASFStatus\<close>

record bot_state =
  state_status :: jsstring
  state_isDone :: bool

record status_info =
  user :: "bot_state js_object"
  isDone :: bool

text \<open>
  \<open>statusMatch line\<close> is \<^verbatim>\<open>lines[i].match(...)\<close> read as \<^verbatim>\<open>(matchRes[1], matchRes[2])\<close>; both
  groups take part in every match (lemma \<open>statusMatch_groups\<close>).
\<close>

definition statusMatch :: "jsstring \<Rightarrow> (jsstring \<times> jsstring) option" where
  "statusMatch line =
     (case match line statusRegex of
        None \<Rightarrow> None
      | Some m \<Rightarrow>
          (case (m 1, m 2) of
             (Some u, Some st) \<Rightarrow> Some (u, st)
           | _ \<Rightarrow> None))"

text \<open>\<^verbatim>\<open>matchRes[2].match(/Bot is connecting to Steam network/i)\<close> is not \<^verbatim>\<open>null\<close>.\<close>

definition isConnecting :: "jsstring \<Rightarrow> bool" where
  "isConnecting st = (match st connectingRegex \<noteq> None)"

text \<open>
  The loop body. \<^verbatim>\<open>statusInfo.user[name].isDone = false\<close> reads back the object stored
  one statement earlier under the same name and clears its flag, which is the same as
  storing that object with the flag cleared.
\<close>

definition parseASFStatus_step :: "jsstring \<Rightarrow> status_info \<Rightarrow> status_info" where
  "parseASFStatus_step line statusInfo =
     (case statusMatch line of
        None \<Rightarrow> statusInfo
      | Some (u, st) \<Rightarrow>
          (let info1 = statusInfo\<lparr>user :=
                 js_assign (user statusInfo) u \<lparr>state_status = st, state_isDone = True\<rparr>\<rparr>
           in if isConnecting st
              then info1\<lparr>user :=
                       js_assign (user info1) u \<lparr>state_status = st, state_isDone = False\<rparr>,
                     isDone := False\<rparr>
              else info1))"

definition parseASFStatus :: "jsstring \<Rightarrow> status_info" where
  "parseASFStatus result =
     fold parseASFStatus_step (split_nl result) \<lparr>user = empty_object, isDone = True\<rparr>"

subsection \<open>The agent, the notification hook and the trace\<close>

text \<open>
  The body of a reply of \<^verbatim>\<open>POST /Api/Command\<close>, and the reply itself: \<open>FetchFailed\<close> is
  a rejected \<^verbatim>\<open>fetch\<close> or \<^verbatim>\<open>res.json()\<close>.
\<close>

record asf_body =
  Success :: bool
  Result :: jsstring
  Message :: jsstring

datatype asf_reply = FetchFailed | Body asf_body

text \<open>
  The reply of \<^verbatim>\<open>octokit.gists.get\<close> followed by reading
  \<^verbatim>\<open>gist.data.files["Steam Codes"].content\<close>: the content, or an exception with its
  \<^verbatim>\<open>status\<close>.
\<close>

datatype gist_reply = GistError "nat option" | GistContent jsstring

datatype hook_type = T_info | T_warn | T_error | T_success

datatype event =
    Sleep nat
  | Command jsstring
  | Log hook_type string
  | Hook hook_type string "jsstring option"
  | Save "jsstring list"
  | Unlink

datatype outcome = Returned | Exited nat | Thrown

record config =
  prefix :: jsstring
  bots :: jsstring
  webhookShowAccountStatus :: jsstring

subsection \<open>checkConnection\<close>

definition maxRetries :: nat where
  "maxRetries = 5"

definition retryDelay :: nat where
  "retryDelay = 5"

text \<open>
  \<open>fetch n\<close> is the reply to the query of attempt \<open>n\<close>. The result is how the call ends
  (\<open>Exited 1\<close> is \<^verbatim>\<open>process.exit(1)\<close>) and the trace of what it did.
\<close>

function checkConnection_loop ::
  "config \<Rightarrow> (nat \<Rightarrow> asf_reply) \<Rightarrow> nat \<Rightarrow> event list \<Rightarrow> outcome \<times> event list" where
  "checkConnection_loop cfg fetch attemptNumber tr =
     (if attemptNumber > maxRetries
      then (Exited 1, tr @ [Log T_error ''Can't connect to ASF!''])
      else
        (let tr1 = tr @ [Command (prefix cfg @ js ''stats'')];
             success = (case fetch attemptNumber of
                          Body body \<Rightarrow> Success body
                        | FetchFailed \<Rightarrow> False)
         in if success then (Returned, tr1)
            else checkConnection_loop cfg fetch (attemptNumber + 1)
                   (tr1 @ [Log T_warn ''Connection check failed!'', Sleep retryDelay])))"
  by pat_completeness auto
termination
  by (relation "measure (\<lambda>(cfg, fetch, attemptNumber, tr). Suc maxRetries - attemptNumber)") auto

definition checkConnection :: "config \<Rightarrow> (nat \<Rightarrow> asf_reply) \<Rightarrow> outcome \<times> event list" where
  "checkConnection cfg fetch = checkConnection_loop cfg fetch 1 []"

subsection \<open>checkUserLoggedIn\<close>

text \<open>
  The loop has no bound, so a run that never ends is the value \<open>None\<close>. \<open>fetch n\<close> is the
  reply to the \<open>n\<close>-th status query, counted from 0. \<open>Thrown\<close> is the rejected promise of
  the call.
\<close>

partial_function (option) checkUserLoggedIn_loop ::
  "config \<Rightarrow> (nat \<Rightarrow> asf_reply) \<Rightarrow> nat \<Rightarrow> event list \<Rightarrow> (outcome \<times> event list) option" where
  "checkUserLoggedIn_loop cfg fetch n tr =
     (let tr1 = tr @ [Command (prefix cfg @ js ''status asf'')]
      in case fetch n of
           FetchFailed \<Rightarrow> Some (Thrown, tr1 @ [Log T_error ''Error running command''])
         | Body result \<Rightarrow>
             if Success result \<and> Result result \<noteq> []
             then if isDone (parseASFStatus (Result result))
                  then Some (Returned, tr1 @ [Log T_info ''All ASF users are connected and ready!''])
                  else checkUserLoggedIn_loop cfg fetch (n + 1)
                         (tr1 @ [Log T_info ''ASF users are still connecting to Steam network...'',
                                 Sleep 10])
             else Some (Thrown, tr1 @ [Log T_error ''Failed to get status from ASF'']))"

text \<open>
  After the loop the function awaits \<^verbatim>\<open>consoleAndWebhookAsync("info", ...)\<close>; \<open>hookReturns\<close>
  says whether that notification returns or throws.
\<close>

definition checkUserLoggedIn ::
  "config \<Rightarrow> (nat \<Rightarrow> asf_reply) \<Rightarrow> bool \<Rightarrow> (outcome \<times> event list) option" where
  "checkUserLoggedIn cfg fetch hookReturns =
     (case checkUserLoggedIn_loop cfg fetch 0 [] of
        None \<Rightarrow> None
      | Some (Returned, tr) \<Rightarrow>
          Some (if hookReturns then Returned else Thrown,
                tr @ [Log T_info ''ASF users are logged in!'',
                      Hook T_info ''ASF users are logged in!'' None])
      | Some (out, tr) \<Rightarrow> Some (out, tr))"

subsection \<open>The state of the script and sendHookAsync\<close>

text \<open>
  \<open>processedLicenses\<close> is the array in memory, \<open>processedFile\<close> the array last written to
  \<^verbatim>\<open>./storage/processedLicenses\<close>, \<open>migrationFile\<close> the content of
  \<^verbatim>\<open>./storage/lastlength\<close> when that file exists. \<open>hookCalls\<close> counts the calls of
  \<^verbatim>\<open>sendHookAsync\<close> so far.
\<close>

record world =
  processedLicenses :: "jsstring list"
  processedFile :: "jsstring list"
  migrationFile :: "jsstring option"
  trace :: "event list"
  hookCalls :: nat

text \<open>
  The environment of one cycle: the reply of the gist, the reply of the agent to the
  \<open>i\<close>-th submission of the cycle, and for the \<open>n\<close>-th call of \<^verbatim>\<open>sendHookAsync\<close> whether it
  returns (\<open>True\<close>) or throws. It throws when the delivery it awaits is rejected by
  \<^verbatim>\<open>processWebhookQueue\<close>; with no webhook configured it always returns.
\<close>

record env =
  gist :: gist_reply
  asf :: "nat \<Rightarrow> asf_reply"
  hookOk :: "nat \<Rightarrow> bool"

definition addTrace :: "event list \<Rightarrow> world \<Rightarrow> world" where
  "addTrace evs w = w\<lparr>trace := trace w @ evs\<rparr>"

definition sendHookAsync ::
  "env \<Rightarrow> hook_type \<Rightarrow> string \<Rightarrow> jsstring option \<Rightarrow> world \<Rightarrow> bool \<times> world" where
  "sendHookAsync e type msg licenseId w =
     (hookOk e (hookCalls w),
      w\<lparr>trace := trace w @ [Hook type msg licenseId], hookCalls := hookCalls w + 1\<rparr>)"

definition consoleAndWebhookAsync ::
  "env \<Rightarrow> hook_type \<Rightarrow> string \<Rightarrow> world \<Rightarrow> bool \<times> world" where
  "consoleAndWebhookAsync e type msg w = sendHookAsync e type msg None (addTrace [Log type msg] w)"

definition saveProcessedLicenses :: "world \<Rightarrow> world" where
  "saveProcessedLicenses w =
     w\<lparr>processedFile := processedLicenses w, trace := trace w @ [Save (processedLicenses w)]\<rparr>"

subsection \<open>checkGame\<close>

text \<open>
  \<^verbatim>\<open>content.split("\n").map(code => code.trim()).filter(code => code)\<close>, the filter
  \<^verbatim>\<open>codes.filter(code => !processedLicenses.includes(code))\<close>, and
  \<^verbatim>\<open>newCodes.reverse(); newCodes.slice(0, 40)\<close>.
\<close>

definition parseCodes :: "jsstring \<Rightarrow> jsstring list" where
  "parseCodes content = filter (\<lambda>code. code \<noteq> []) (map trim (split_nl content))"

definition newCodes :: "jsstring list \<Rightarrow> jsstring list \<Rightarrow> jsstring list" where
  "newCodes processed codes = filter (\<lambda>code. code \<notin> set processed) codes"

definition batch :: "jsstring list \<Rightarrow> jsstring list" where
  "batch new = take 40 (rev new)"

text \<open>
  How the handlers of one submission end: the loop goes on, \<^verbatim>\<open>process.exit(1)\<close> was
  called, or an exception leaves the chain and reaches the \<^verbatim>\<open>catch\<close> of \<^verbatim>\<open>checkGame\<close>.
\<close>

datatype step_result = Continue | Exit1 | Throw

text \<open>The \<^verbatim>\<open>.catch(async err => ...)\<close> of the submission.\<close>

definition catchHandler :: "env \<Rightarrow> world \<Rightarrow> step_result \<times> world" where
  "catchHandler e w =
     (case sendHookAsync e T_error
             ''An error occurred while connecting to ASF, check the logs for more information.''
             None (addTrace [Log T_error ''Error running command''] w) of
        (True, w') \<Rightarrow> (Exit1, w')
      | (False, w') \<Rightarrow> (Throw, w'))"

definition hasRateLimit :: "bot_result js_object \<Rightarrow> bool" where
  "hasRateLimit asfResult =
     list_ex (\<lambda>result. js_includes (bot_status result) (js ''RateLimitExceeded''))
       (object_values asfResult)"

text \<open>
  One turn of \<^verbatim>\<open>for (let currentLicense of batch)\<close>; \<open>i\<close> is the position in the batch. An
  exception thrown inside the \<^verbatim>\<open>.then\<close> handler (here only by an awaited
  \<^verbatim>\<open>sendHookAsync\<close>) is caught by the \<^verbatim>\<open>.catch\<close> handler of the same chain. The two
  branches of \<^verbatim>\<open>config.webhookShowAccountStatus === "true"\<close> call \<^verbatim>\<open>sendHookAsync\<close> with the same
  type, message and license and differ in the fourth argument only, which the trace does
  not record.
\<close>

definition claimLicense ::
  "env \<Rightarrow> config \<Rightarrow> nat \<Rightarrow> jsstring \<Rightarrow> world \<Rightarrow> step_result \<times> world" where
  "claimLicense e cfg i currentLicense w =
     (let asfCommand = prefix cfg @ js ''addlicense '' @ bots cfg @ js '' '' @ currentLicense;
          w1 = addTrace [Sleep 2, Command asfCommand] w
      in case asf e i of
           FetchFailed \<Rightarrow> catchHandler e w1
         | Body body \<Rightarrow>
             if Success body
             then
               (let asfResult = parseASFResult (Result body)
                in if hasRateLimit asfResult
                   then
                     (case sendHookAsync e T_error
                             ''Rate limit exceeded while processing package. Will retry in next run.''
                             (Some currentLicense)
                             (addTrace [Log T_error ''Rate limit exceeded, not marking as processed.''] w1) of
                        (True, w2) \<Rightarrow> (Continue, w2)
                      | (False, w2) \<Rightarrow> catchHandler e w2)
                   else
                     (let w2 = saveProcessedLicenses
                                 ((addTrace [Log T_info ''Success: License Added''] w1)
                                    \<lparr>processedLicenses := processedLicenses w1 @ [currentLicense]\<rparr>)
                      in case sendHookAsync e T_success ''Processed a new package!''
                                (Some currentLicense) w2 of
                           (True, w3) \<Rightarrow> (Continue, w3)
                         | (False, w3) \<Rightarrow> catchHandler e w3))
             else
               (case sendHookAsync e T_error
                       ''Got non-success result from ASF, check the logs for more information.''
                       None (addTrace [Log T_error ''Error: ''] w1) of
                  (True, w2) \<Rightarrow>
                    (Exit1, addTrace [Log T_error ''Got non-success result from ASF!''] w2)
                | (False, w2) \<Rightarrow> catchHandler e w2))"

fun claimBatch ::
  "env \<Rightarrow> config \<Rightarrow> nat \<Rightarrow> jsstring list \<Rightarrow> world \<Rightarrow> step_result \<times> world" where
  "claimBatch e cfg i [] w = (Continue, w)"
| "claimBatch e cfg i (currentLicense # rest) w =
     (case claimLicense e cfg i currentLicense w of
        (Continue, w') \<Rightarrow> claimBatch e cfg (i + 1) rest w'
      | (r, w') \<Rightarrow> (r, w'))"

text \<open>The \<^verbatim>\<open>try\<close> block of \<^verbatim>\<open>checkGame\<close>.\<close>

definition checkGame_try :: "env \<Rightarrow> config \<Rightarrow> world \<Rightarrow> step_result \<times> world" where
  "checkGame_try e cfg w =
     (case gist e of
        GistError st \<Rightarrow> (Throw, w)
      | GistContent content \<Rightarrow>
          (let codes = parseCodes content;
               new = newCodes (processedLicenses w) codes
           in if length new > 0
              then claimBatch e cfg 0 (batch new) w
              else (case consoleAndWebhookAsync e T_info ''No new packages found.'' w of
                      (True, w') \<Rightarrow> (Continue, w')
                    | (False, w') \<Rightarrow> (Throw, w'))))"

definition checkGame :: "env \<Rightarrow> config \<Rightarrow> world \<Rightarrow> outcome \<times> world" where
  "checkGame e cfg w =
     (case consoleAndWebhookAsync e T_info ''Checking for new packages...'' w of
        (False, w0) \<Rightarrow> (Thrown, w0)
      | (True, w0) \<Rightarrow>
          (case checkGame_try e cfg w0 of
             (Throw, w1) \<Rightarrow>
               (case sendHookAsync e T_error
                       ''Failed to fetch Steam codes from GitHub Gist. Check the logs for details.''
                       None (addTrace [Log T_error ''Error fetching GitHub Gist''] w1) of
                  (True, w2) \<Rightarrow> (Exited 1, w2)
                | (False, w2) \<Rightarrow> (Thrown, w2))
           | (Exit1, w1) \<Rightarrow> (Exited 1, w1)
           | (Continue, w1) \<Rightarrow>
               (case consoleAndWebhookAsync e T_info ''Next run scheduled for: ...'' w1 of
                  (True, w2) \<Rightarrow> (Returned, w2)
                | (False, w2) \<Rightarrow> (Thrown, w2))))"

subsection \<open>The migration at start\<close>

text \<open>
  \<^verbatim>\<open>parseInt(s, 10)\<close>: leading white space is skipped, a sign is read, then the longest
  run of decimal digits; with no digit the result is \<^verbatim>\<open>NaN\<close> (\<open>None\<close>). The number is used
  only as the end of a \<^verbatim>\<open>slice\<close>, which clamps it to the length of the array, so the
  rounding of numbers beyond \<open>2^53\<close> cannot be seen and the value is kept exact.
\<close>

definition parseInt10 :: "jsstring \<Rightarrow> int option" where
  "parseInt10 str =
     (let s = dropWhile (\<lambda>c. isWhiteSpace c \<or> isLineTerminator c) str;
          sign = (case s of c # cs \<Rightarrow> if c = 45 then - 1 else 1 | [] \<Rightarrow> 1);
          s' = (case s of c # cs \<Rightarrow> if c = 45 \<or> c = 43 then cs else s | [] \<Rightarrow> []);
          digits = takeWhile (\<lambda>c. 48 \<le> c \<and> c \<le> 57) s'
      in if digits = [] then None
         else Some (sign * foldl (\<lambda>a d. 10 * a + int (d - 48)) 0 digits))"

text \<open>\<^verbatim>\<open>xs.slice(0, end)\<close>: a negative \<open>end\<close> counts from the end of the array.\<close>

definition slice0 :: "'a list \<Rightarrow> int \<Rightarrow> 'a list" where
  "slice0 xs end = (if end < 0 then take (nat (int (length xs) + end)) xs else take (nat end) xs)"

text \<open>\<^verbatim>\<open>[...new Set(xs)]\<close>: the elements of \<open>xs\<close> in the order of their first occurrence.\<close>

definition setSpread :: "'a list \<Rightarrow> 'a list" where
  "setSpread xs = foldl (\<lambda>acc x. if x \<in> set acc then acc else acc @ [x]) [] xs"

text \<open>
  Lines 146 to 170. \<^verbatim>\<open>readFileSync\<close> throws when the file is missing, and the outer
  \<^verbatim>\<open>catch\<close> swallows that; \<^verbatim>\<open>unlinkSync\<close> removes the file, which exists at that point.
  Everything thrown between the fetch and \<^verbatim>\<open>saveProcessedLicenses()\<close> is the inner
  \<^verbatim>\<open>catch\<close>, modelled by the reply \<open>GistError\<close>.
\<close>

definition migration :: "gist_reply \<Rightarrow> world \<Rightarrow> world" where
  "migration g w =
     (case migrationFile w of
        None \<Rightarrow> w
      | Some content \<Rightarrow>
          (case parseInt10 (trim content) of
             None \<Rightarrow> w
           | Some lastLength \<Rightarrow>
               (let w1 = (case g of
                            GistContent c \<Rightarrow>
                              (let codes = parseCodes c;
                                   migratedLicenses = slice0 codes lastLength
                               in saveProcessedLicenses
                                    (w\<lparr>processedLicenses :=
                                         setSpread (processedLicenses w @ migratedLicenses)\<rparr>))
                          | GistError st \<Rightarrow>
                              addTrace
                                (Log T_warn ''Migration failed - could not fetch Gist for migration. Skipping...''
                                 # (if st = Some 401
                                    then [Log T_warn ''GitHub authentication required for migration.'']
                                    else [])) w)
                in (addTrace [Unlink] w1)\<lparr>migrationFile := None\<rparr>)))"

subsection \<open>processWebhookQueue and sendWebhook\<close>

text \<open>
  The script runs on one thread: between two \<^verbatim>\<open>await\<close>s a function runs without
  interruption. \<^verbatim>\<open>processWebhookQueue\<close> is suspended at two places, \<^verbatim>\<open>await fetch(...)\<close> and
  \<^verbatim>\<open>await sleep(0.2)\<close>, so its state between two events is \<open>phase\<close>: not running, waiting
  for the fetch of one job, or waiting for the timer with its deadline. The events are a call
  of \<^verbatim>\<open>sendWebhook\<close>, the settling of the pending fetch (\<open>True\<close>: the response is \<^verbatim>\<open>ok\<close>;
  \<open>False\<close>: it is not, or the fetch was rejected) and the firing of the timer. Every event
  carries the time in milliseconds at which it happens; the clock never runs backwards, and
  a timer set for 200 ms does not fire before its deadline (an event that comes earlier is
  ignored, as is a settling with no fetch pending). \<open>deliveries\<close> records the start of each
  delivery attempt and the call of the job's \<^verbatim>\<open>resolve\<close> or \<^verbatim>\<open>reject\<close>, with their times.

  \<open>loopHead\<close> is the test of the \<^verbatim>\<open>while\<close> loop followed by \<^verbatim>\<open>webhookQueue.shift()\<close> and the
  call of \<^verbatim>\<open>fetch\<close>, or by \<^verbatim>\<open>isProcessingWebhook = false\<close> when the queue is empty.
  \<open>dispatcher_inv\<close> is the invariant of the proofs, \<open>gap\<close> the order it keeps on the
  recorded deliveries: times grow, and an attempt starts at least 200 ms after everything
  recorded before it.
\<close>

datatype 'j phase = Dormant | AwaitFetch 'j | AwaitSleep nat

datatype 'j delivery = Attempt 'j nat | Resolved 'j nat | Rejected 'j nat

record 'j dispatcher =
  webhookQueue :: "'j list"
  isProcessingWebhook :: bool
  phase :: "'j phase"
  clock :: nat
  deliveries :: "'j delivery list"

datatype 'j input = SendWebhook 'j | FetchSettled bool | TimerFired

definition spacing :: nat where
  "spacing = 200"

definition idle :: "'j dispatcher" where
  "idle = \<lparr>webhookQueue = [], isProcessingWebhook = False, phase = Dormant, clock = 0,
            deliveries = []\<rparr>"

definition loopHead :: "'j dispatcher \<Rightarrow> 'j dispatcher" where
  "loopHead s =
     (case webhookQueue s of
        [] \<Rightarrow> s\<lparr>isProcessingWebhook := False, phase := Dormant\<rparr>
      | job # rest \<Rightarrow>
          s\<lparr>webhookQueue := rest, phase := AwaitFetch job,
            deliveries := deliveries s @ [Attempt job (clock s)]\<rparr>)"

definition processWebhookQueue :: "'j dispatcher \<Rightarrow> 'j dispatcher" where
  "processWebhookQueue s =
     (if isProcessingWebhook s \<or> webhookQueue s = [] then s
      else loopHead (s\<lparr>isProcessingWebhook := True\<rparr>))"

definition sendWebhook :: "'j \<Rightarrow> 'j dispatcher \<Rightarrow> 'j dispatcher" where
  "sendWebhook job s = processWebhookQueue (s\<lparr>webhookQueue := webhookQueue s @ [job]\<rparr>)"

definition fetchSettled :: "bool \<Rightarrow> 'j dispatcher \<Rightarrow> 'j dispatcher" where
  "fetchSettled ok s =
     (case phase s of
        AwaitFetch job \<Rightarrow>
          s\<lparr>deliveries := deliveries s @ [if ok then Resolved job (clock s) else Rejected job (clock s)],
            phase := AwaitSleep (clock s + spacing)\<rparr>
      | _ \<Rightarrow> s)"

definition timerFired :: "'j dispatcher \<Rightarrow> 'j dispatcher" where
  "timerFired s =
     (case phase s of
        AwaitSleep deadline \<Rightarrow> if deadline \<le> clock s then loopHead s else s
      | _ \<Rightarrow> s)"

definition step :: "nat \<times> 'j input \<Rightarrow> 'j dispatcher \<Rightarrow> 'j dispatcher" where
  "step ev s =
     (let s' = s\<lparr>clock := max (clock s) (fst ev)\<rparr>
      in case snd ev of
           SendWebhook job \<Rightarrow> sendWebhook job s'
         | FetchSettled ok \<Rightarrow> fetchSettled ok s'
         | TimerFired \<Rightarrow> timerFired s')"

definition run :: "(nat \<times> 'j input) list \<Rightarrow> 'j dispatcher" where
  "run evs = fold step evs idle"

subsection \<open>Auxiliary notions for the proofs\<close>

text \<open>The capture groups that take part in every match of a pattern.\<close>

primrec must :: "re \<Rightarrow> nat set" where
  "must (Chr p) = {}"
| "must (One p) = {}"
| "must (Star p) = {}"
| "must (Plus p) = {}"
| "must (StarLazy p) = {}"
| "must (PlusLazy p) = {}"
| "must (Opt r) = {}"
| "must (Seq a b) = must a \<union> must b"
| "must (Alt a b) = must a \<inter> must b"
| "must (Group n r) = insert n (must r)"
| "must Bol = {}"
| "must Eol = {}"
| "must Eps = {}"

text \<open>
  Both parsers run over the lines and store, for each line that matches, one value under
  the captured name. \<open>resultEntry\<close> and \<open>statusEntry\<close> give the name and the value a line
  stores, \<open>entriesOf\<close> lists them in the order of the lines, and \<open>assignLines\<close> is the loop.
\<close>

definition resultEntry :: "jsstring \<Rightarrow> (jsstring \<times> bot_result) option" where
  "resultEntry line =
     (case resultMatch line of
        None \<Rightarrow> None
      | Some (u, i, st) \<Rightarrow>
          Some (u, \<lparr>bot_id = i,
                    bot_status = (if st = js ''OK'' then js ''OK -> Not available for this account''
                                  else st)\<rparr>))"

definition statusEntry :: "jsstring \<Rightarrow> (jsstring \<times> bot_state) option" where
  "statusEntry line =
     (case statusMatch line of
        None \<Rightarrow> None
      | Some (u, st) \<Rightarrow> Some (u, \<lparr>state_status = st, state_isDone = (\<not> isConnecting st)\<rparr>))"

definition entriesOf :: "(jsstring \<Rightarrow> (jsstring \<times> 'v) option) \<Rightarrow> jsstring list \<Rightarrow> (jsstring \<times> 'v) list" where
  "entriesOf g lines = List.map_filter g lines"

definition assignLines ::
  "(jsstring \<Rightarrow> (jsstring \<times> 'v) option) \<Rightarrow> jsstring list \<Rightarrow> 'v js_object \<Rightarrow> 'v js_object" where
  "assignLines g lines obj =
     fold (\<lambda>line obj. case g line of None \<Rightarrow> obj | Some (u, v) \<Rightarrow> js_assign obj u v) lines obj"

text \<open>The text \<^verbatim>\<open>'<bot1> OK'\<close>, apostrophes included.\<close>

definition bot1_bare_OK :: jsstring where
  "bot1_bare_OK = 39 # js ''<bot1> OK'' @ [39]"

text \<open>
  Two status lines for the same bot, the first one still connecting; and two result lines
  for a bot whose name is \<^verbatim>\<open>__proto__\<close>.
\<close>

definition connecting_then_ready :: jsstring where
  "connecting_then_ready =
     js ''<a> Bot is connecting to Steam network.'' @ [10] @ js ''<a> Bot is ready''"

definition proto_twice :: jsstring where
  "proto_twice = js ''<__proto__> Fail'' @ [10] @ js ''<__proto__> OK/NoDetail''"

text \<open>
  Notions for the two polling loops: whether a reply counts as a success for
  \<^verbatim>\<open>checkConnection\<close>; the three kinds of reply \<^verbatim>\<open>checkUserLoggedIn\<close> tells apart (still
  connecting: the call succeeded and the parsed aggregate is false; failed: the test
  \<^verbatim>\<open>result && result.Success && result.Result\<close> fails or the fetch was rejected; all
  ready); what one unsuccessful turn of either loop adds to the trace; the commands and the
  sleeps of a trace; and the configuration and replies used as examples.
\<close>

definition replySuccess :: "asf_reply \<Rightarrow> bool" where
  "replySuccess r = (case r of Body body \<Rightarrow> Success body | FetchFailed \<Rightarrow> False)"

definition failedAttempt :: "config \<Rightarrow> event list" where
  "failedAttempt cfg =
     [Command (prefix cfg @ js ''stats''), Log T_warn ''Connection check failed!'', Sleep retryDelay]"

definition commandsOf :: "event list \<Rightarrow> jsstring list" where
  "commandsOf tr = concat (map (\<lambda>ev. case ev of Command c \<Rightarrow> [c] | _ \<Rightarrow> []) tr)"

definition sleepsOf :: "event list \<Rightarrow> nat list" where
  "sleepsOf tr = concat (map (\<lambda>ev. case ev of Sleep n \<Rightarrow> [n] | _ \<Rightarrow> []) tr)"

definition stillConnecting :: "asf_reply \<Rightarrow> bool" where
  "stillConnecting r =
     (case r of
        Body body \<Rightarrow> Success body \<and> \<not> isDone (parseASFStatus (Result body))
      | FetchFailed \<Rightarrow> False)"

definition statusFailed :: "asf_reply \<Rightarrow> bool" where
  "statusFailed r =
     (case r of Body body \<Rightarrow> \<not> (Success body \<and> Result body \<noteq> []) | FetchFailed \<Rightarrow> True)"

definition allReadyReply :: "asf_reply \<Rightarrow> bool" where
  "allReadyReply r =
     (case r of
        Body body \<Rightarrow> Success body \<and> Result body \<noteq> [] \<and> isDone (parseASFStatus (Result body))
      | FetchFailed \<Rightarrow> False)"

definition waitingPoll :: "config \<Rightarrow> event list" where
  "waitingPoll cfg =
     [Command (prefix cfg @ js ''status asf''),
      Log T_info ''ASF users are still connecting to Steam network...'', Sleep 10]"

definition defaultConfig :: config where
  "defaultConfig = \<lparr>prefix = js ''!'', bots = js ''asf'', webhookShowAccountStatus = js ''true''\<rparr>"

definition connectingBody :: asf_body where
  "connectingBody =
     \<lparr>Success = True, Result = js ''<a> Bot is connecting to Steam network.'', Message = []\<rparr>"

definition okBody :: asf_body where
  "okBody = \<lparr>Success = True, Result = js ''<a> Bot is ready'', Message = []\<rparr>"

text \<open>
  Examples for the cycle and the migration: codes and code lists, environments whose agent
  always answers with a rate limit or with an added license and whose notification hook
  returns or throws, an empty state and a state with a marker file. \<open>licenseAdded\<close> and
  \<open>rateLimited\<close> name the two branches of \<^verbatim>\<open>if (body.Success)\<close>; \<open>rateLimitHook\<close> is the
  notification of the rate-limit branch.
\<close>

definition a100 :: jsstring where "a100 = js ''a/100''"
definition a200 :: jsstring where "a200 = js ''a/200''"

definition duplicateList :: jsstring where
  "duplicateList = js ''a/100'' @ [10] @ js ''a/200'' @ [10] @ js ''a/100''"

definition quietEnv :: env where
  "quietEnv = \<lparr>gist = GistContent duplicateList, asf = (\<lambda>i. FetchFailed), hookOk = (\<lambda>n. True)\<rparr>"

definition emptyWorld :: world where
  "emptyWorld = \<lparr>processedLicenses = [], processedFile = [], migrationFile = None,
                  trace = [], hookCalls = 0\<rparr>"

definition markerWorld :: world where
  "markerWorld = \<lparr>processedLicenses = [a100], processedFile = [a100],
                   migrationFile = Some (js ''2'' @ [10]), trace = [], hookCalls = 0\<rparr>"

definition licenseAdded :: "asf_reply \<Rightarrow> bool" where
  "licenseAdded r =
     (case r of
        Body body \<Rightarrow> Success body \<and> \<not> hasRateLimit (parseASFResult (Result body))
      | FetchFailed \<Rightarrow> False)"

definition rateLimited :: "asf_reply \<Rightarrow> bool" where
  "rateLimited r =
     (case r of
        Body body \<Rightarrow> Success body \<and> hasRateLimit (parseASFResult (Result body))
      | FetchFailed \<Rightarrow> False)"

definition rateLimitedBody :: asf_body where
  "rateLimitedBody =
     \<lparr>Success = True, Result = js ''<bot1> ID: app/200 | Status: RateLimitExceeded'', Message = []\<rparr>"

definition twoCodes :: jsstring where
  "twoCodes = js ''a/100'' @ [10] @ js ''a/200''"

definition failingHookEnv :: env where
  "failingHookEnv =
     \<lparr>gist = GistContent twoCodes, asf = (\<lambda>i. Body rateLimitedBody), hookOk = (\<lambda>n. n = 0)\<rparr>"

definition rateLimitHook :: "jsstring \<Rightarrow> event" where
  "rateLimitHook currentLicense =
     Hook T_error ''Rate limit exceeded while processing package. Will retry in next run.''
       (Some currentLicense)"

definition politeEnv :: env where
  "politeEnv =
     \<lparr>gist = GistContent twoCodes, asf = (\<lambda>i. Body rateLimitedBody), hookOk = (\<lambda>n. True)\<rparr>"

definition addedBody :: asf_body where
  "addedBody =
     \<lparr>Success = True, Result = js ''<bot1> ID: app/200 | Status: OK | Items: app/200'', Message = []\<rparr>"

definition addingEnv :: env where
  "addingEnv =
     \<lparr>gist = GistContent twoCodes, asf = (\<lambda>i. Body addedBody), hookOk = (\<lambda>n. True)\<rparr>"

text \<open>
  For the webhook queue: the jobs enqueued by a sequence of events; the jobs, the times
  and the settled jobs of the recorded deliveries; the job in flight; the order \<open>gap\<close> and
  the invariant described above; and a sequence of two calls of \<^verbatim>\<open>sendWebhook\<close>.
\<close>

definition enqueued :: "(nat \<times> 'j input) list \<Rightarrow> 'j list" where
  "enqueued evs = concat (map (\<lambda>ev. case snd ev of SendWebhook job \<Rightarrow> [job] | _ \<Rightarrow> []) evs)"


definition attemptTimes :: "'j delivery list \<Rightarrow> nat list" where
  "attemptTimes ds = concat (map (\<lambda>d. case d of Attempt job t \<Rightarrow> [t] | _ \<Rightarrow> []) ds)"







section \<open>Properties\<close>

subsection \<open>Capture groups that always take part\<close>

text \<open>
  A successful match has passed through the continuation, no capture is ever cleared, and
  every group on the way has been set.
\<close>

lemma repGreedy_cont: "repGreedy p n cs k xs = Some res \<Longrightarrow> \<exists>ys. k (ys, cs) = Some res"
  by (induction p n cs k xs rule: repGreedy.induct) (auto split: if_splits option.splits)

lemma repLazy_cont: "repLazy p n cs k xs = Some res \<Longrightarrow> \<exists>ys. k (ys, cs) = Some res"
  by (induction p n cs k xs rule: repLazy.induct) (auto split: if_splits option.splits)

lemma matcher_cont:
  "matcher r inp k s = Some res \<Longrightarrow>
   \<exists>s'. k s' = Some res \<and> (\<forall>n. snd s n \<noteq> None \<longrightarrow> snd s' n \<noteq> None) \<and> (\<forall>n\<in>must r. snd s' n \<noteq> None)"
proof (induction r arbitrary: k s res)
  case (Seq a b)
  from Seq.prems have "matcher a inp (matcher b inp k) s = Some res" by simp
  from Seq.IH(1)[OF this] obtain s1 where
    s1: "matcher b inp k s1 = Some res" "\<forall>n. snd s n \<noteq> None \<longrightarrow> snd s1 n \<noteq> None"
        "\<forall>n\<in>must a. snd s1 n \<noteq> None" by blast
  from Seq.IH(2)[OF s1(1)] obtain s2 where
    s2: "k s2 = Some res" "\<forall>n. snd s1 n \<noteq> None \<longrightarrow> snd s2 n \<noteq> None"
        "\<forall>n\<in>must b. snd s2 n \<noteq> None" by blast
  have "(\<forall>n. snd s n \<noteq> None \<longrightarrow> snd s2 n \<noteq> None) \<and> (\<forall>n\<in>must (Seq a b). snd s2 n \<noteq> None)"
    using s1(2,3) s2(2,3) by simp blast
  with s2(1) show ?case by blast
next
  case (Opt r)
  show ?case
  proof (cases "matcher r inp (\<lambda>s'. if length (fst s') = length (fst s) then None else k s') s")
    case None
    with Opt.prems have "k s = Some res" by simp
    then show ?thesis by (intro exI[of _ s]) simp
  next
    case (Some x)
    with Opt.prems have "x = res" by simp
    with Some Opt.IH obtain s1 where
      "(if length (fst s1) = length (fst s) then None else k s1) = Some res"
      "\<forall>n. snd s n \<noteq> None \<longrightarrow> snd s1 n \<noteq> None" by blast
    then have "k s1 = Some res" by (simp split: if_splits)
    with \<open>\<forall>n. snd s n \<noteq> None \<longrightarrow> snd s1 n \<noteq> None\<close> show ?thesis
      by (intro exI[of _ s1]) simp
  qed
next
  case (Alt a b)
  show ?case
  proof (cases "matcher a inp k s")
    case None
    with Alt.prems have "matcher b inp k s = Some res" by simp
    from Alt.IH(2)[OF this] obtain s1 where
      "k s1 = Some res" "\<forall>n. snd s n \<noteq> None \<longrightarrow> snd s1 n \<noteq> None" "\<forall>n\<in>must b. snd s1 n \<noteq> None"
      by blast
    then show ?thesis by (intro exI[of _ s1]) simp
  next
    case (Some x)
    with Alt.prems have "matcher a inp k s = Some res" by simp
    from Alt.IH(1)[OF this] obtain s1 where
      "k s1 = Some res" "\<forall>n. snd s n \<noteq> None \<longrightarrow> snd s1 n \<noteq> None" "\<forall>n\<in>must a. snd s1 n \<noteq> None"
      by blast
    then show ?thesis by (intro exI[of _ s1]) simp
  qed
next
  case (Group m r)
  from Group.prems have
    "matcher r inp (\<lambda>s'. k (fst s', (snd s')(m \<mapsto> take (length (fst s) - length (fst s')) (fst s)))) s = Some res"
    by simp
  from Group.IH[OF this] obtain s1 where
    s1: "k (fst s1, (snd s1)(m \<mapsto> take (length (fst s) - length (fst s1)) (fst s))) = Some res"
        "\<forall>n. snd s n \<noteq> None \<longrightarrow> snd s1 n \<noteq> None" "\<forall>n\<in>must r. snd s1 n \<noteq> None" by blast
  show ?case
    by (rule exI[of _ "(fst s1, (snd s1)(m \<mapsto> take (length (fst s) - length (fst s1)) (fst s)))"])
       (use s1 in auto)
next
  case (Chr p)
  then obtain c cs where "fst s = c # cs" "k (cs, snd s) = Some res"
    by (auto split: list.splits if_splits)
  then show ?case by (intro exI[of _ "(cs, snd s)"]) simp
next
  case (One p)
  then obtain c cs where "fst s = c # cs" "k (cs, snd s) = Some res"
    by (auto split: list.splits if_splits)
  then show ?case by (intro exI[of _ "(cs, snd s)"]) simp
next
  case (Star p)
  then obtain ys where "k (ys, snd s) = Some res" by (auto dest: repGreedy_cont)
  then show ?case by (intro exI[of _ "(ys, snd s)"]) simp
next
  case (Plus p)
  then obtain ys where "k (ys, snd s) = Some res" by (auto dest: repGreedy_cont)
  then show ?case by (intro exI[of _ "(ys, snd s)"]) simp
next
  case (StarLazy p)
  then obtain ys where "k (ys, snd s) = Some res" by (auto dest: repLazy_cont)
  then show ?case by (intro exI[of _ "(ys, snd s)"]) simp
next
  case (PlusLazy p)
  then obtain ys where "k (ys, snd s) = Some res" by (auto dest: repLazy_cont)
  then show ?case by (intro exI[of _ "(ys, snd s)"]) simp
next
  case Bol
  then have "k s = Some res" by (simp split: if_splits)
  then show ?case by (intro exI[of _ s]) simp
next
  case Eol
  then have "k s = Some res" by (simp split: if_splits)
  then show ?case by (intro exI[of _ s]) simp
next
  case Eps
  then have "k s = Some res" by simp
  then show ?case by (intro exI[of _ s]) simp
qed

lemma execFrom_groups:
  "execFrom r inp xs = Some m \<Longrightarrow> n \<in> must r \<Longrightarrow> m n \<noteq> None"
proof (induction xs)
  case Nil
  then show ?case by (auto dest!: matcher_cont)
next
  case (Cons x xs)
  then show ?case by (auto split: option.splits dest!: matcher_cont)
qed

lemma must_resultRegex: "1 \<in> must resultRegex" "3 \<in> must resultRegex"
  by (simp_all add: resultRegex_def)

lemma must_statusRegex: "1 \<in> must statusRegex" "2 \<in> must statusRegex"
  by (simp_all add: statusRegex_def)

lemma resultMatch_groups:
  "match line resultRegex = Some m \<Longrightarrow> m 1 \<noteq> None \<and> m 3 \<noteq> None"
  unfolding match_def using execFrom_groups must_resultRegex by blast

lemma resultMatch_None_iff: "resultMatch line = None \<longleftrightarrow> match line resultRegex = None"
  using resultMatch_groups[of line] by (auto simp: resultMatch_def split: option.splits)

lemma statusMatch_groups:
  "match line statusRegex = Some m \<Longrightarrow> m 1 \<noteq> None \<and> m 2 \<noteq> None"
  unfolding match_def using execFrom_groups must_statusRegex by blast

lemma statusMatch_None_iff: "statusMatch line = None \<longleftrightarrow> match line statusRegex = None"
  using statusMatch_groups[of line] by (auto simp: statusMatch_def split: option.splits)

subsection \<open>The loop over the lines\<close>

lemma assignLines_Nil: "assignLines g [] obj = obj"
  by (simp add: assignLines_def)

lemma assignLines_Cons:
  "assignLines g (l # ls) obj =
     assignLines g ls (case g l of None \<Rightarrow> obj | Some (u, v) \<Rightarrow> js_assign obj u v)"
  by (simp add: assignLines_def)

lemma entriesOf_Nil: "entriesOf g [] = []"
  by (simp add: entriesOf_def map_filter_simps)

lemma entriesOf_Cons:
  "entriesOf g (l # ls) = (case g l of None \<Rightarrow> entriesOf g ls | Some e \<Rightarrow> e # entriesOf g ls)"
  by (simp add: entriesOf_def map_filter_simps split: option.splits)

lemma entriesOf_append: "entriesOf g (xs @ ys) = entriesOf g xs @ entriesOf g ys"
  by (induction xs) (auto simp: entriesOf_Nil entriesOf_Cons split: option.splits)

lemma set_entriesOf: "set (entriesOf g lines) = {e. \<exists>l\<in>set lines. g l = Some e}"
  by (induction lines) (auto simp: entriesOf_Nil entriesOf_Cons split: option.splits)

lemma own_js_assign:
  "map_of (own (js_assign obj u v)) k =
     (if u = js ''__proto__'' then map_of (own obj) k
      else if k = u then Some v else map_of (own obj) k)"
  by (simp add: js_assign_def update_conv')

lemma proto_js_assign:
  "proto (js_assign obj u v) = (if u = js ''__proto__'' then Some v else proto obj)"
  by (simp add: js_assign_def)

lemma own_assignLines:
  "map_of (own (assignLines g lines obj)) k =
     (if k = js ''__proto__'' then map_of (own obj) k
      else (case map_of (rev (entriesOf g lines)) k of
              Some v \<Rightarrow> Some v
            | None \<Rightarrow> map_of (own obj) k))"
proof (induction lines arbitrary: obj)
  case Nil
  show ?case by (simp add: assignLines_Nil entriesOf_Nil)
next
  case (Cons l ls)
  show ?case
  proof (cases "g l")
    case None
    then show ?thesis using Cons.IH[of obj] by (simp add: assignLines_Cons entriesOf_Cons)
  next
    case (Some e)
    obtain u v where e: "e = (u, v)" by (cases e)
    show ?thesis
      using Cons.IH[of "js_assign obj u v"] Some e
      by (auto simp: assignLines_Cons entriesOf_Cons own_js_assign map_add_def split: option.splits)
  qed
qed

lemma proto_assignLines:
  "proto (assignLines g lines obj) =
     (case map_of (rev (entriesOf g lines)) (js ''__proto__'') of
        Some v \<Rightarrow> Some v
      | None \<Rightarrow> proto obj)"
proof (induction lines arbitrary: obj)
  case Nil
  show ?case by (simp add: assignLines_Nil entriesOf_Nil)
next
  case (Cons l ls)
  show ?case
  proof (cases "g l")
    case None
    then show ?thesis using Cons.IH[of obj] by (simp add: assignLines_Cons entriesOf_Cons)
  next
    case (Some e)
    obtain u v where e: "e = (u, v)" by (cases e)
    show ?thesis
      using Cons.IH[of "js_assign obj u v"] Some e
      by (auto simp: assignLines_Cons entriesOf_Cons proto_js_assign map_add_def split: option.splits)
  qed
qed

lemma distinct_own_js_assign:
  "distinct (map fst (own obj)) \<Longrightarrow> distinct (map fst (own (js_assign obj u v)))"
  by (simp add: js_assign_def distinct_update)

lemma distinct_own_assignLines:
  "distinct (map fst (own obj)) \<Longrightarrow> distinct (map fst (own (assignLines g lines obj)))"
  by (induction lines arbitrary: obj)
     (auto simp: assignLines_Nil assignLines_Cons distinct_own_js_assign split: option.splits)

lemma parseASFResult_step_eq:
  "parseASFResult_step line obj =
     (case resultEntry line of None \<Rightarrow> obj | Some (u, v) \<Rightarrow> js_assign obj u v)"
  by (auto simp: parseASFResult_step_def resultEntry_def split: option.splits)

lemma parseASFResult_assignLines:
  "parseASFResult result = assignLines resultEntry (split_nl result) empty_object"
  unfolding parseASFResult_def assignLines_def
  by (rule arg_cong[where f="\<lambda>f. fold f (split_nl result) empty_object"])
     (simp add: fun_eq_iff parseASFResult_step_eq)

lemma map_of_rev_last:
  "g line = Some (k, v) \<Longrightarrow> \<forall>l\<in>set post. \<forall>v'. g l \<noteq> Some (k, v') \<Longrightarrow>
   map_of (rev (entriesOf g (pre @ line # post))) k = Some v"
proof -
  assume a: "g line = Some (k, v)" and b: "\<forall>l\<in>set post. \<forall>v'. g l \<noteq> Some (k, v')"
  have "k \<notin> fst ` set (rev (entriesOf g post))"
    using b by (auto simp: set_entriesOf)
  then have "map_of (rev (entriesOf g post)) k = None"
    by (simp add: map_of_eq_None_iff)
  then show ?thesis using a
    by (simp add: entriesOf_append entriesOf_Cons map_add_def)
qed

lemma map_of_rev_entries_SomeD:
  "map_of (rev (entriesOf g lines)) k = Some v \<Longrightarrow>
   \<exists>pre line post. lines = pre @ line # post \<and> g line = Some (k, v) \<and>
       (\<forall>l\<in>set post. \<forall>v'. g l \<noteq> Some (k, v'))"
proof (induction lines rule: rev_induct)
  case Nil
  then show ?case by (simp add: entriesOf_Nil)
next
  case (snoc l ls)
  show ?case
  proof (cases "\<exists>v'. g l = Some (k, v')")
    case True
    then obtain v' where v': "g l = Some (k, v')" by blast
    with snoc.prems have "v' = v"
      by (simp add: entriesOf_append entriesOf_Cons entriesOf_Nil)
    with v' show ?thesis by (intro exI[of _ ls] exI[of _ l] exI[of _ "[]"]) simp
  next
    case False
    with snoc.prems have "map_of (rev (entriesOf g ls)) k = Some v"
      by (cases "g l") (auto simp: entriesOf_append entriesOf_Cons entriesOf_Nil split: if_splits)
    from snoc.IH[OF this] obtain pre line post where
      p: "ls = pre @ line # post" "g line = Some (k, v)" "\<forall>l\<in>set post. \<forall>v'. g l \<noteq> Some (k, v')"
      by blast
    show ?thesis
      by (intro exI[of _ pre] exI[of _ line] exI[of _ "post @ [l]"]) (use p False in auto)
  qed
qed

subsection \<open>parseASFResult\<close>

lemmas regex_eval =
  match_def resultRegex_def statusRegex_def connectingRegex_def lit_def js_def
  canonicalize_def isLineTerminator_def isWhiteSpace_def

lemma resultMatch_bot1_OK: "resultMatch bot1_bare_OK = Some (js ''bot1'', None, js ''OK'')"
  by (simp add: bot1_bare_OK_def resultMatch_def regex_eval)

lemma split_nl_bot1_OK: "split_nl bot1_bare_OK = [bot1_bare_OK]"
  by (simp add: bot1_bare_OK_def js_def)

lemma parseASFResult_bot1_OK:
  "parseASFResult bot1_bare_OK =
     \<lparr>own = [(js ''bot1'', \<lparr>bot_id = None, bot_status = js ''OK -> Not available for this account''\<rparr>)],
      proto = None\<rparr>"
proof -
  let ?v = "\<lparr>bot_id = None, bot_status = js ''OK -> Not available for this account''\<rparr>"
  have "parseASFResult bot1_bare_OK = parseASFResult_step bot1_bare_OK empty_object"
    by (simp add: parseASFResult_def split_nl_bot1_OK)
  also have "\<dots> = js_assign empty_object (js ''bot1'') ?v"
    by (simp add: parseASFResult_step_def resultMatch_bot1_OK)
  also have "\<dots> = \<lparr>own = [(js ''bot1'', ?v)], proto = None\<rparr>"
  proof -
    have "js ''bot1'' \<noteq> js ''__proto__''" by (simp add: js_def)
    then show ?thesis by (simp add: js_assign_def empty_object_def)
  qed
  finally show ?thesis .
qed

lemma resultEntry_SomeD:
  assumes "resultEntry line = Some (u, r)"
  shows "\<exists>i st. resultMatch line = Some (u, i, st) \<and> bot_id r = i \<and>
      bot_status r = (if st = js ''OK'' then js ''OK -> Not available for this account'' else st)"
proof (cases "resultMatch line")
  case None
  with assms show ?thesis by (simp add: resultEntry_def)
next
  case (Some t)
  obtain u' i st where t: "t = (u', i, st)" by (cases t)
  with Some assms have "u' = u"
    and "r = \<lparr>bot_id = i,
              bot_status = (if st = js ''OK'' then js ''OK -> Not available for this account''
                            else st)\<rparr>"
    by (simp_all add: resultEntry_def)
  with Some t show ?thesis by (intro exI[of _ i] exI[of _ st]) simp
qed

lemma parseASFResult_own_last:
  assumes "split_nl result = pre @ line # post"
      and "resultMatch line = Some (u, i, st)"
      and "\<forall>l\<in>set post. \<forall>i' st'. resultMatch l \<noteq> Some (u, i', st')"
      and "u \<noteq> js ''__proto__''"
  shows "map_of (own (parseASFResult result)) u =
     Some \<lparr>bot_id = i,
           bot_status = (if st = js ''OK'' then js ''OK -> Not available for this account'' else st)\<rparr>"
proof -
  let ?v = "\<lparr>bot_id = i,
           bot_status = (if st = js ''OK'' then js ''OK -> Not available for this account'' else st)\<rparr>"
  have 1: "resultEntry line = Some (u, ?v)" using assms(2) by (simp add: resultEntry_def)
  have 2: "\<forall>l\<in>set post. \<forall>v'. resultEntry l \<noteq> Some (u, v')"
    using assms(3) by (auto simp: resultEntry_def split: option.splits)
  have "map_of (rev (entriesOf resultEntry (pre @ line # post))) u = Some ?v"
    by (rule map_of_rev_last[OF 1 2])
  then show ?thesis
    using assms(1,4) by (simp add: parseASFResult_assignLines own_assignLines)
qed

lemma parseASFResult_own_from_line:
  assumes "map_of (own (parseASFResult result)) u = Some r"
  shows "u \<noteq> js ''__proto__'' \<and> (\<exists>pre line post. split_nl result = pre @ line # post \<and>
           resultEntry line = Some (u, r) \<and> (\<forall>l\<in>set post. \<forall>v'. resultEntry l \<noteq> Some (u, v')))"
proof -
  from assms have u: "u \<noteq> js ''__proto__''"
    by (auto simp: parseASFResult_assignLines own_assignLines empty_object_def)
  with assms have "map_of (rev (entriesOf resultEntry (split_nl result))) u = Some r"
    by (auto simp: parseASFResult_assignLines own_assignLines empty_object_def split: option.splits)
  from map_of_rev_entries_SomeD[OF this] u show ?thesis by blast
qed

lemma parseASFResult_proto_from_line:
  assumes "proto (parseASFResult result) = Some r"
  shows "\<exists>pre line post. split_nl result = pre @ line # post \<and>
           resultEntry line = Some (js ''__proto__'', r) \<and>
           (\<forall>l\<in>set post. \<forall>v'. resultEntry l \<noteq> Some (js ''__proto__'', v'))"
proof -
  from assms have "map_of (rev (entriesOf resultEntry (split_nl result))) (js ''__proto__'') = Some r"
    by (auto simp: parseASFResult_assignLines proto_assignLines empty_object_def split: option.splits)
  from map_of_rev_entries_SomeD[OF this] show ?thesis by blast
qed

text \<open>
  Claim C1. Whatever the input, the entry \<^verbatim>\<open>parseASFResult\<close> holds for a name comes from
  a line that matched with that name, and its status is the captured status, except that
  a captured status that is exactly \<^verbatim>\<open>OK\<close> is replaced by
  \<^verbatim>\<open>OK -> Not available for this account\<close>; the last line matching with a name decides
  its entry. The text \<^verbatim>\<open>'<bot1> OK'\<close> gives one entry, for \<^verbatim>\<open>bot1\<close>, with the replaced status.
\<close>

theorem parseASFResult_reclassifies_bare_OK:
  "(\<forall>pre line post u i st.
      split_nl result = pre @ line # post \<and> resultMatch line = Some (u, i, st) \<and>
      (\<forall>l\<in>set post. \<forall>i' st'. resultMatch l \<noteq> Some (u, i', st')) \<and> u \<noteq> js ''__proto__'' \<longrightarrow>
      map_of (own (parseASFResult result)) u =
        Some \<lparr>bot_id = i,
              bot_status = (if st = js ''OK'' then js ''OK -> Not available for this account''
                            else st)\<rparr>)
   \<and> (\<forall>u r. map_of (own (parseASFResult result)) u = Some r \<or>
             (u = js ''__proto__'' \<and> proto (parseASFResult result) = Some r) \<longrightarrow>
        (\<exists>line\<in>set (split_nl result). \<exists>i st.
            resultMatch line = Some (u, i, st) \<and> bot_id r = i \<and>
            bot_status r = (if st = js ''OK'' then js ''OK -> Not available for this account''
                            else st)))
   \<and> parseASFResult bot1_bare_OK =
        \<lparr>own = [(js ''bot1'',
                  \<lparr>bot_id = None, bot_status = js ''OK -> Not available for this account''\<rparr>)],
         proto = None\<rparr>"
proof (intro conjI allI impI)
  fix pre line post u i st
  assume h: "split_nl result = pre @ line # post \<and> resultMatch line = Some (u, i, st) \<and>
      (\<forall>l\<in>set post. \<forall>i' st'. resultMatch l \<noteq> Some (u, i', st')) \<and> u \<noteq> js ''__proto__''"
  show "map_of (own (parseASFResult result)) u =
        Some \<lparr>bot_id = i,
              bot_status = (if st = js ''OK'' then js ''OK -> Not available for this account''
                            else st)\<rparr>"
    by (rule parseASFResult_own_last[of result pre line post u i st]) (use h in simp_all)
next
  fix u r
  assume h: "map_of (own (parseASFResult result)) u = Some r \<or>
             (u = js ''__proto__'' \<and> proto (parseASFResult result) = Some r)"
  have "\<exists>pre line post. split_nl result = pre @ line # post \<and> resultEntry line = Some (u, r)"
  proof (rule disjE[OF h])
    assume "map_of (own (parseASFResult result)) u = Some r"
    from parseASFResult_own_from_line[OF this] show ?thesis by (elim conjE exE) auto
  next
    assume a: "u = js ''__proto__'' \<and> proto (parseASFResult result) = Some r"
    then have "proto (parseASFResult result) = Some r" by simp
    from parseASFResult_proto_from_line[OF this] a show ?thesis by (elim conjE exE) auto
  qed
  then obtain pre line post where
    p: "split_nl result = pre @ line # post" "resultEntry line = Some (u, r)" by (elim exE conjE)
  from resultEntry_SomeD[OF p(2)] obtain i st where
    q: "resultMatch line = Some (u, i, st)" "bot_id r = i"
       "bot_status r = (if st = js ''OK'' then js ''OK -> Not available for this account'' else st)"
    by (elim exE conjE)
  have "line \<in> set (split_nl result)" using p(1) by simp
  with q show "\<exists>line\<in>set (split_nl result). \<exists>i st.
            resultMatch line = Some (u, i, st) \<and> bot_id r = i \<and>
            bot_status r = (if st = js ''OK'' then js ''OK -> Not available for this account''
                            else st)"
    by (intro bexI[of _ line] exI[of _ i] exI[of _ st] conjI)
next
  show "parseASFResult bot1_bare_OK =
        \<lparr>own = [(js ''bot1'',
                  \<lparr>bot_id = None, bot_status = js ''OK -> Not available for this account''\<rparr>)],
         proto = None\<rparr>"
    by (rule parseASFResult_bot1_OK)
qed

lemma resultMatch_items:
  "resultMatch (js ''<bot1> OK | Items: app/339610'') = Some (js ''bot1'', None, js ''OK | Items: app/339610'')"
  by (simp add: resultMatch_def regex_eval)

theorem parseASFResult_reclassifies_bare_OK_witness:
  "map_of (own (parseASFResult (js ''<bot1> OK | Items: app/339610''))) (js ''bot1'') =
     Some \<lparr>bot_id = None, bot_status = js ''OK | Items: app/339610''\<rparr>
   \<and> (\<exists>line\<in>set (split_nl (js ''<bot1> OK | Items: app/339610'')). \<exists>i.
         resultMatch line = Some (js ''bot1'', i, js ''OK | Items: app/339610''))"
proof -
  let ?t = "js ''<bot1> OK | Items: app/339610''"
  let ?st = "js ''OK | Items: app/339610''"
  let ?r = "\<lparr>bot_id = None, bot_status = ?st\<rparr>"
  have s: "split_nl ?t = [] @ ?t # []" by (simp add: js_def)
  have n: "js ''bot1'' \<noteq> js ''__proto__''" and n': "?st \<noteq> js ''OK''"
    and n'': "?st \<noteq> js ''OK -> Not available for this account''"
    by (simp_all add: js_def)
  have hyp: "split_nl ?t = [] @ ?t # [] \<and> resultMatch ?t = Some (js ''bot1'', None, ?st) \<and>
      (\<forall>l\<in>set []. \<forall>i' st'. resultMatch l \<noteq> Some (js ''bot1'', i', st')) \<and>
      js ''bot1'' \<noteq> js ''__proto__''"
    using s resultMatch_items n by simp
  note th = parseASFResult_reclassifies_bare_OK[of ?t]
  from th[THEN conjunct1, rule_format, OF hyp] n'
  have fwd: "map_of (own (parseASFResult ?t)) (js ''bot1'') = Some ?r" by simp
  then have "map_of (own (parseASFResult ?t)) (js ''bot1'') = Some ?r \<or>
             (js ''bot1'' = js ''__proto__'' \<and> proto (parseASFResult ?t) = Some ?r)" by simp
  from th[THEN conjunct2, THEN conjunct1, rule_format, OF this] n'
  have "\<exists>line\<in>set (split_nl ?t). \<exists>i. resultMatch line = Some (js ''bot1'', i, ?st)"
    using n'' by (auto split: if_splits)
  with fwd show ?thesis by simp
qed

subsection \<open>parseASFStatus\<close>

lemma statusEntry_SomeD:
  assumes "statusEntry line = Some (u, b)"
  shows "\<exists>st. statusMatch line = Some (u, st) \<and> state_status b = st \<and>
           state_isDone b = (\<not> isConnecting st)"
proof (cases "statusMatch line")
  case None
  with assms show ?thesis by (simp add: statusEntry_def)
next
  case (Some t)
  obtain u' st where t: "t = (u', st)" by (cases t)
  with Some assms have "u' = u" and "b = \<lparr>state_status = st, state_isDone = (\<not> isConnecting st)\<rparr>"
    by (simp_all add: statusEntry_def)
  with Some t show ?thesis by (intro exI[of _ st]) simp
qed

lemma js_assign_twice: "js_assign (js_assign obj u v) u v' = js_assign obj u v'"
  by (simp add: js_assign_def update_last)

lemma parseASFStatus_step_user:
  "user (parseASFStatus_step line info) =
     (case statusEntry line of None \<Rightarrow> user info | Some (u, v) \<Rightarrow> js_assign (user info) u v)"
proof (cases "statusMatch line")
  case None
  then show ?thesis by (simp add: parseASFStatus_step_def statusEntry_def)
next
  case (Some t)
  obtain u st where t: "t = (u, st)" by (cases t)
  show ?thesis
    using Some t by (simp add: parseASFStatus_step_def statusEntry_def Let_def js_assign_twice)
qed

lemma parseASFStatus_step_isDone:
  "isDone (parseASFStatus_step line info) =
     (isDone info \<and> (\<forall>u st. statusMatch line = Some (u, st) \<longrightarrow> \<not> isConnecting st))"
proof (cases "statusMatch line")
  case None
  then show ?thesis by (simp add: parseASFStatus_step_def)
next
  case (Some t)
  obtain u st where t: "t = (u, st)" by (cases t)
  show ?thesis
    using Some t by (simp add: parseASFStatus_step_def Let_def)
qed

lemma fold_parseASFStatus_user:
  "user (fold parseASFStatus_step lines info) = assignLines statusEntry lines (user info)"
proof (induction lines arbitrary: info)
  case Nil
  show ?case by (simp add: assignLines_Nil)
next
  case (Cons l ls)
  show ?case
    using Cons.IH[of "parseASFStatus_step l info"]
    by (simp add: assignLines_Cons parseASFStatus_step_user)
qed

lemma fold_parseASFStatus_isDone:
  "isDone (fold parseASFStatus_step lines info) =
     (isDone info \<and> (\<forall>line\<in>set lines. \<forall>u st. statusMatch line = Some (u, st) \<longrightarrow> \<not> isConnecting st))"
proof (induction lines arbitrary: info)
  case Nil
  show ?case by simp
next
  case (Cons l ls)
  show ?case
    using Cons.IH[of "parseASFStatus_step l info"]
    by (simp add: parseASFStatus_step_isDone)
qed

lemma parseASFStatus_user:
  "user (parseASFStatus result) = assignLines statusEntry (split_nl result) empty_object"
  by (simp add: parseASFStatus_def fold_parseASFStatus_user)

lemma parseASFStatus_isDone:
  "isDone (parseASFStatus result) =
     (\<forall>line\<in>set (split_nl result). \<forall>u st. statusMatch line = Some (u, st) \<longrightarrow> \<not> isConnecting st)"
  by (simp add: parseASFStatus_def fold_parseASFStatus_isDone)

lemma parseASFStatus_entry_from_line:
  assumes "map_of (own (user (parseASFStatus result))) u = Some b \<or>
           (u = js ''__proto__'' \<and> proto (user (parseASFStatus result)) = Some b)"
  shows "\<exists>line\<in>set (split_nl result). statusEntry line = Some (u, b)"
proof -
  have "map_of (rev (entriesOf statusEntry (split_nl result))) u = Some b"
  proof (rule disjE[OF assms])
    assume a: "map_of (own (user (parseASFStatus result))) u = Some b"
    then have "u \<noteq> js ''__proto__''"
      by (auto simp: parseASFStatus_user own_assignLines empty_object_def)
    with a show ?thesis
      by (auto simp: parseASFStatus_user own_assignLines empty_object_def split: option.splits)
  next
    assume "u = js ''__proto__'' \<and> proto (user (parseASFStatus result)) = Some b"
    then show ?thesis
      by (auto simp: parseASFStatus_user proto_assignLines empty_object_def split: option.splits)
  qed
  from map_of_rev_entries_SomeD[OF this] obtain pre line post where
    "split_nl result = pre @ line # post" "statusEntry line = Some (u, b)" by (elim exE conjE)
  then show ?thesis by (intro bexI[of _ line]) simp_all
qed

lemma split_nl_connecting_then_ready:
  "split_nl connecting_then_ready =
     [js ''<a> Bot is connecting to Steam network.'', js ''<a> Bot is ready'']"
  by (simp add: connecting_then_ready_def js_def)

lemma statusMatch_connecting:
  "statusMatch (js ''<a> Bot is connecting to Steam network.'') =
     Some (js ''a'', js ''Bot is connecting to Steam network'')"
  by (simp add: statusMatch_def regex_eval)

lemma statusMatch_ready:
  "statusMatch (js ''<a> Bot is ready'') = Some (js ''a'', js ''Bot is ready'')"
  by (simp add: statusMatch_def regex_eval)

lemma isConnecting_connecting: "isConnecting (js ''Bot is connecting to Steam network'')"
  by (simp add: isConnecting_def regex_eval)

lemma isConnecting_ready: "\<not> isConnecting (js ''Bot is ready'')"
  by (simp add: isConnecting_def regex_eval)

lemma a_not_proto: "js ''a'' \<noteq> js ''__proto__''"
  by (simp add: js_def)

lemma parseASFStatus_connecting_then_ready:
  "parseASFStatus connecting_then_ready =
     \<lparr>user = \<lparr>own = [(js ''a'', \<lparr>state_status = js ''Bot is ready'', state_isDone = True\<rparr>)],
              proto = None\<rparr>,
      isDone = False\<rparr>"
proof -
  let ?i0 = "\<lparr>user = empty_object, isDone = True\<rparr>"
  let ?i1 = "\<lparr>user = \<lparr>own = [(js ''a'', \<lparr>state_status = js ''Bot is connecting to Steam network'',
                                        state_isDone = False\<rparr>)], proto = None\<rparr>,
             isDone = False\<rparr>"
  have 1: "parseASFStatus_step (js ''<a> Bot is connecting to Steam network.'') ?i0 = ?i1"
    using a_not_proto
    by (simp add: parseASFStatus_step_def statusMatch_connecting isConnecting_connecting
          js_assign_def empty_object_def)
  have 2: "parseASFStatus_step (js ''<a> Bot is ready'') ?i1 =
     \<lparr>user = \<lparr>own = [(js ''a'', \<lparr>state_status = js ''Bot is ready'', state_isDone = True\<rparr>)],
              proto = None\<rparr>,
      isDone = False\<rparr>"
    using a_not_proto
    by (simp add: parseASFStatus_step_def statusMatch_ready isConnecting_ready js_assign_def)
  show ?thesis
    by (simp add: parseASFStatus_def split_nl_connecting_then_ready 1 2)
qed

lemma own_values_map_of:
  assumes "distinct (map fst al)" and "b \<in> set (map snd al)"
  shows "\<exists>u. map_of al u = Some b"
proof -
  from assms(2) obtain u where "(u, b) \<in> set al" by auto
  with assms(1) have "map_of al u = Some b" by simp
  then show ?thesis ..
qed

lemma distinct_own_parseASFStatus: "distinct (map fst (own (user (parseASFStatus result))))"
  by (simp add: parseASFStatus_user distinct_own_assignLines empty_object_def)

text \<open>
  A pattern that is a run of characters matches somewhere in a string exactly when the
  string contains a run with the same canonical forms: \<open>isConnecting\<close> is containment of
  \<^verbatim>\<open>Bot is connecting to Steam network\<close> up to the case of ASCII letters.
\<close>

lemma matcher_chars:
  "matcher (seqs (map Chr ps)) inp k (xs, cs) =
     (if length ps \<le> length xs \<and>
         map canonicalize (take (length ps) xs) = map canonicalize ps
      then k (drop (length ps) xs, cs) else None)"
proof (induction ps arbitrary: xs)
  case Nil
  show ?case by simp
next
  case (Cons p ps)
  show ?case
  proof (cases xs)
    case Nil
    then show ?thesis by simp
  next
    case (Cons x xs')
    then show ?thesis using Cons.IH[of xs'] by simp
  qed
qed

lemma execFrom_chars:
  "execFrom (seqs (map Chr ps)) inp xs \<noteq> None \<longleftrightarrow>
     (\<exists>pre mid post. xs = pre @ mid @ post \<and> map canonicalize mid = map canonicalize ps)"
proof (induction xs)
  case Nil
  show ?case by (auto simp: matcher_chars)
next
  case (Cons x xs)
  have here: "matcher (seqs (map Chr ps)) inp Some (x # xs, Map.empty) \<noteq> None \<longleftrightarrow>
      (\<exists>mid post. x # xs = mid @ post \<and> map canonicalize mid = map canonicalize ps)"
  proof
    assume "matcher (seqs (map Chr ps)) inp Some (x # xs, Map.empty) \<noteq> None"
    then have l: "length ps \<le> length (x # xs)"
      and m: "map canonicalize (take (length ps) (x # xs)) = map canonicalize ps"
      by (simp_all add: matcher_chars split: if_splits)
    have "x # xs = take (length ps) (x # xs) @ drop (length ps) (x # xs)" by simp
    with m show "\<exists>mid post. x # xs = mid @ post \<and> map canonicalize mid = map canonicalize ps"
      by blast
  next
    assume "\<exists>mid post. x # xs = mid @ post \<and> map canonicalize mid = map canonicalize ps"
    then obtain mid post where e: "x # xs = mid @ post"
      and m: "map canonicalize mid = map canonicalize ps" by blast
    from m have "length mid = length ps" by (metis length_map)
    with e m show "matcher (seqs (map Chr ps)) inp Some (x # xs, Map.empty) \<noteq> None"
      by (simp add: matcher_chars)
  qed
  have split: "(\<exists>pre mid post. x # xs = pre @ mid @ post \<and> map canonicalize mid = map canonicalize ps)
      \<longleftrightarrow> (\<exists>mid post. x # xs = mid @ post \<and> map canonicalize mid = map canonicalize ps)
        \<or> (\<exists>pre mid post. xs = pre @ mid @ post \<and> map canonicalize mid = map canonicalize ps)"
  proof
    assume "\<exists>pre mid post. x # xs = pre @ mid @ post \<and> map canonicalize mid = map canonicalize ps"
    then obtain pre mid post where e: "x # xs = pre @ mid @ post"
      and m: "map canonicalize mid = map canonicalize ps" by blast
    show "(\<exists>mid post. x # xs = mid @ post \<and> map canonicalize mid = map canonicalize ps)
        \<or> (\<exists>pre mid post. xs = pre @ mid @ post \<and> map canonicalize mid = map canonicalize ps)"
    proof (cases pre)
      case Nil
      with e m show ?thesis by auto
    next
      case (Cons a pre')
      with e have "xs = pre' @ mid @ post" by simp
      with m show ?thesis by blast
    qed
  next
    assume "(\<exists>mid post. x # xs = mid @ post \<and> map canonicalize mid = map canonicalize ps)
        \<or> (\<exists>pre mid post. xs = pre @ mid @ post \<and> map canonicalize mid = map canonicalize ps)"
    then show "\<exists>pre mid post. x # xs = pre @ mid @ post \<and> map canonicalize mid = map canonicalize ps"
    proof
      assume "\<exists>mid post. x # xs = mid @ post \<and> map canonicalize mid = map canonicalize ps"
      then obtain mid post where "x # xs = [] @ mid @ post"
        "map canonicalize mid = map canonicalize ps" by auto
      then show ?thesis by blast
    next
      assume "\<exists>pre mid post. xs = pre @ mid @ post \<and> map canonicalize mid = map canonicalize ps"
      then obtain pre mid post where "x # xs = (x # pre) @ mid @ post"
        "map canonicalize mid = map canonicalize ps" by auto
      then show ?thesis by blast
    qed
  qed
  have "execFrom (seqs (map Chr ps)) inp (x # xs) \<noteq> None \<longleftrightarrow>
          matcher (seqs (map Chr ps)) inp Some (x # xs, Map.empty) \<noteq> None
          \<or> execFrom (seqs (map Chr ps)) inp xs \<noteq> None"
    by (simp split: option.splits)
  then show ?case using here Cons.IH split by simp
qed

lemma isConnecting_iff:
  "isConnecting st \<longleftrightarrow>
     (\<exists>pre mid post. st = pre @ mid @ post \<and>
        map canonicalize mid = map canonicalize (js ''Bot is connecting to Steam network''))"
proof -
  have "connectingRegex = seqs (map Chr (js ''Bot is connecting to Steam network''))"
    by (simp add: connectingRegex_def lit_def js_def)
  then have "isConnecting st \<longleftrightarrow>
      execFrom (seqs (map Chr (js ''Bot is connecting to Steam network''))) st st \<noteq> None"
    by (simp only: isConnecting_def match_def)
  then show ?thesis by (simp only: execFrom_chars)
qed

text \<open>
  Claim C3, as amended. Every entry \<^verbatim>\<open>parseASFStatus\<close> holds comes from a matching line with
  that name and status, and its flag is false exactly when its status matches
  \<^verbatim>\<open>/Bot is connecting to Steam network/i\<close>. The aggregate \<^verbatim>\<open>isDone\<close> is the conjunction over
  all matching lines (not over the entries: a later line for the same name replaces the
  entry and leaves the aggregate false). With no matching line the aggregate is true, and a
  true aggregate makes every entry's flag true. A status matches the pattern when it
  contains \<^verbatim>\<open>Bot is connecting to Steam network\<close> in any mix of upper and lower case.
\<close>

theorem parseASFStatus_ready_flags:
  "(\<forall>u b. map_of (own (user (parseASFStatus result))) u = Some b \<or>
           (u = js ''__proto__'' \<and> proto (user (parseASFStatus result)) = Some b) \<longrightarrow>
      (\<exists>line\<in>set (split_nl result). statusMatch line = Some (u, state_status b)) \<and>
      state_isDone b = (\<not> isConnecting (state_status b)))
   \<and> isDone (parseASFStatus result) =
        (\<forall>line\<in>set (split_nl result). \<forall>u st.
            statusMatch line = Some (u, st) \<longrightarrow> \<not> isConnecting st)
   \<and> ((\<forall>line\<in>set (split_nl result). statusMatch line = None) \<longrightarrow>
        isDone (parseASFStatus result))
   \<and> (isDone (parseASFStatus result) \<longrightarrow>
        list_all state_isDone (object_values (user (parseASFStatus result))))
   \<and> (\<forall>st. isConnecting st \<longleftrightarrow>
        (\<exists>pre mid post. st = pre @ mid @ post \<and>
           map canonicalize mid = map canonicalize (js ''Bot is connecting to Steam network'')))"
proof -
  have A: "(\<exists>line\<in>set (split_nl result). statusMatch line = Some (u, state_status b)) \<and>
      state_isDone b = (\<not> isConnecting (state_status b))"
    if h: "map_of (own (user (parseASFStatus result))) u = Some b \<or>
           (u = js ''__proto__'' \<and> proto (user (parseASFStatus result)) = Some b)" for u b
  proof -
    from parseASFStatus_entry_from_line[OF h] obtain line where
      l: "line \<in> set (split_nl result)" "statusEntry line = Some (u, b)" by (elim bexE)
    from statusEntry_SomeD[OF l(2)] obtain st where
      "statusMatch line = Some (u, st)" "state_status b = st"
      "state_isDone b = (\<not> isConnecting st)" by (elim exE conjE)
    with l(1) show ?thesis by (intro conjI bexI[of _ line]) simp_all
  qed
  have B: "isDone (parseASFStatus result) =
        (\<forall>line\<in>set (split_nl result). \<forall>u st.
            statusMatch line = Some (u, st) \<longrightarrow> \<not> isConnecting st)"
    by (rule parseASFStatus_isDone)
  have C: "isDone (parseASFStatus result)"
    if "\<forall>line\<in>set (split_nl result). statusMatch line = None"
    using that by (simp add: B)
  have D: "list_all state_isDone (object_values (user (parseASFStatus result)))"
    if d: "isDone (parseASFStatus result)"
  proof -
    have "state_isDone b" if "b \<in> set (object_values (user (parseASFStatus result)))" for b
    proof -
      from that have "b \<in> set (map snd (own (user (parseASFStatus result))))"
        by (simp add: object_values_def)
      from own_values_map_of[OF distinct_own_parseASFStatus this] obtain u where
        "map_of (own (user (parseASFStatus result))) u = Some b" ..
      then have "map_of (own (user (parseASFStatus result))) u = Some b \<or>
           (u = js ''__proto__'' \<and> proto (user (parseASFStatus result)) = Some b)" by simp
      from A[OF this] obtain line where
        "line \<in> set (split_nl result)" "statusMatch line = Some (u, state_status b)"
        and f: "state_isDone b = (\<not> isConnecting (state_status b))" by (elim conjE bexE)
      with d B have "\<not> isConnecting (state_status b)" by blast
      with f show ?thesis by simp
    qed
    then show ?thesis by (simp add: list_all_iff)
  qed
  have A': "\<forall>u b. map_of (own (user (parseASFStatus result))) u = Some b \<or>
           (u = js ''__proto__'' \<and> proto (user (parseASFStatus result)) = Some b) \<longrightarrow>
      (\<exists>line\<in>set (split_nl result). statusMatch line = Some (u, state_status b)) \<and>
      state_isDone b = (\<not> isConnecting (state_status b))"
    by (intro allI impI) (rule A)
  have C': "(\<forall>line\<in>set (split_nl result). statusMatch line = None) \<longrightarrow>
        isDone (parseASFStatus result)"
    by (intro impI) (rule C)
  have D': "isDone (parseASFStatus result) \<longrightarrow>
        list_all state_isDone (object_values (user (parseASFStatus result)))"
    by (intro impI) (rule D)
  have E: "\<forall>st. isConnecting st \<longleftrightarrow>
        (\<exists>pre mid post. st = pre @ mid @ post \<and>
           map canonicalize mid = map canonicalize (js ''Bot is connecting to Steam network''))"
    by (intro allI) (rule isConnecting_iff)
  show ?thesis by (rule conjI[OF A' conjI[OF B conjI[OF C' conjI[OF D' E]]]])
qed

theorem parseASFStatus_ready_flags_witness:
  "split_nl [] = [[]] \<and> statusMatch [] = None \<and> isDone (parseASFStatus [])
   \<and> map_of (own (user (parseASFStatus connecting_then_ready))) (js ''a'') =
        Some \<lparr>state_status = js ''Bot is ready'', state_isDone = True\<rparr>
   \<and> \<not> isConnecting (js ''Bot is ready'')"
proof -
  have none: "\<forall>line\<in>set (split_nl []). statusMatch line = None"
    by (simp add: statusMatch_def regex_eval)
  from parseASFStatus_ready_flags[of "[]", THEN conjunct2, THEN conjunct2, THEN conjunct1,
         THEN mp, OF none]
  have empty: "isDone (parseASFStatus [])" .
  let ?b = "\<lparr>state_status = js ''Bot is ready'', state_isDone = True\<rparr>"
  have ent: "map_of (own (user (parseASFStatus connecting_then_ready))) (js ''a'') = Some ?b"
    by (simp add: parseASFStatus_connecting_then_ready)
  then have "map_of (own (user (parseASFStatus connecting_then_ready))) (js ''a'') = Some ?b \<or>
      (js ''a'' = js ''__proto__'' \<and> proto (user (parseASFStatus connecting_then_ready)) = Some ?b)"
    by simp
  from parseASFStatus_ready_flags[of connecting_then_ready, THEN conjunct1, THEN spec, THEN spec,
         THEN mp, OF this]
  have "\<not> isConnecting (js ''Bot is ready'')" by simp
  moreover have "statusMatch [] = None" by (simp add: statusMatch_def regex_eval)
  ultimately show ?thesis using empty ent by simp
qed

text \<open>
  The claim as stated fails: the only entry is ready, the aggregate is false.
\<close>

theorem parseASFStatus_allReady_counterexample:
  "parseASFStatus connecting_then_ready =
     \<lparr>user = \<lparr>own = [(js ''a'', \<lparr>state_status = js ''Bot is ready'', state_isDone = True\<rparr>)],
              proto = None\<rparr>,
      isDone = False\<rparr>
   \<and> list_all state_isDone (object_values (user (parseASFStatus connecting_then_ready)))
   \<and> \<not> isDone (parseASFStatus connecting_then_ready)"
  by (simp add: parseASFStatus_connecting_then_ready object_values_def)

subsection \<open>The keys of the results\<close>

lemma keys_assignLines:
  "set (object_keys (assignLines g lines empty_object)) =
     {u. \<exists>line\<in>set lines. \<exists>v. g line = Some (u, v)} - {js ''__proto__''}"
proof -
  have "set (object_keys (assignLines g lines empty_object)) =
          dom (map_of (own (assignLines g lines empty_object)))"
    by (simp add: object_keys_def dom_map_of_conv_image_fst)
  also have "\<dots> = {u. u \<noteq> js ''__proto__'' \<and> map_of (rev (entriesOf g lines)) u \<noteq> None}"
    by (auto simp: dom_def own_assignLines empty_object_def split: option.splits)
  also have "\<dots> = {u. \<exists>line\<in>set lines. \<exists>v. g line = Some (u, v)} - {js ''__proto__''}"
    by (auto simp: map_of_eq_None_iff set_entriesOf image_iff)
  finally show ?thesis .
qed

lemma resultEntry_iff:
  "(\<exists>v. resultEntry line = Some (u, v)) \<longleftrightarrow> (\<exists>i st. resultMatch line = Some (u, i, st))"
  by (auto simp: resultEntry_def split: option.splits)

lemma statusEntry_iff:
  "(\<exists>v. statusEntry line = Some (u, v)) \<longleftrightarrow> (\<exists>st. statusMatch line = Some (u, st))"
  by (auto simp: statusEntry_def split: option.splits)

lemma parseASFResult_keys:
  "set (object_keys (parseASFResult result)) =
     {u. \<exists>line\<in>set (split_nl result). \<exists>i st. resultMatch line = Some (u, i, st)}
       - {js ''__proto__''}"
  by (simp add: parseASFResult_assignLines keys_assignLines resultEntry_iff)

lemma parseASFStatus_keys:
  "set (object_keys (user (parseASFStatus result))) =
     {u. \<exists>line\<in>set (split_nl result). \<exists>st. statusMatch line = Some (u, st)}
       - {js ''__proto__''}"
  by (simp add: parseASFStatus_user keys_assignLines statusEntry_iff)

lemma resultMatch_proto_OK:
  "resultMatch (js ''<__proto__> OK'') = Some (js ''__proto__'', None, js ''OK'')"
  by (simp add: resultMatch_def regex_eval)

lemma statusMatch_proto_ready:
  "statusMatch (js ''<__proto__> Bot is ready'') = Some (js ''__proto__'', js ''Bot is ready'')"
  by (simp add: statusMatch_def regex_eval)

lemma parseASFResult_proto_OK:
  "parseASFResult (js ''<__proto__> OK'') =
     \<lparr>own = [],
      proto = Some \<lparr>bot_id = None, bot_status = js ''OK -> Not available for this account''\<rparr>\<rparr>"
proof -
  have "split_nl (js ''<__proto__> OK'') = [js ''<__proto__> OK'']" by (simp add: js_def)
  then have "parseASFResult (js ''<__proto__> OK'') =
               parseASFResult_step (js ''<__proto__> OK'') empty_object"
    by (simp add: parseASFResult_def)
  also have "\<dots> = js_assign empty_object (js ''__proto__'')
                      \<lparr>bot_id = None, bot_status = js ''OK -> Not available for this account''\<rparr>"
    by (simp add: parseASFResult_step_def resultMatch_proto_OK)
  also have "\<dots> = \<lparr>own = [],
      proto = Some \<lparr>bot_id = None, bot_status = js ''OK -> Not available for this account''\<rparr>\<rparr>"
    by (simp add: js_assign_def empty_object_def)
  finally show ?thesis .
qed

lemma parseASFStatus_proto_ready:
  "parseASFStatus (js ''<__proto__> Bot is ready'') =
     \<lparr>user = \<lparr>own = [],
               proto = Some \<lparr>state_status = js ''Bot is ready'', state_isDone = True\<rparr>\<rparr>,
      isDone = True\<rparr>"
proof -
  have "split_nl (js ''<__proto__> Bot is ready'') = [js ''<__proto__> Bot is ready'']"
    by (simp add: js_def)
  then have "parseASFStatus (js ''<__proto__> Bot is ready'') =
               parseASFStatus_step (js ''<__proto__> Bot is ready'')
                 \<lparr>user = empty_object, isDone = True\<rparr>"
    by (simp add: parseASFStatus_def)
  also have "\<dots> = \<lparr>user = \<lparr>own = [],
               proto = Some \<lparr>state_status = js ''Bot is ready'', state_isDone = True\<rparr>\<rparr>,
      isDone = True\<rparr>"
    by (simp add: parseASFStatus_step_def statusMatch_proto_ready isConnecting_ready
          js_assign_def empty_object_def)
  finally show ?thesis .
qed

text \<open>
  Claim C4 at the name \<^verbatim>\<open>__proto__\<close>: the line matches and captures the name, and neither
  parser returns an object with that key.
\<close>

theorem parsers_keys_miss_proto_name:
  "resultMatch (js ''<__proto__> OK'') = Some (js ''__proto__'', None, js ''OK'')
   \<and> object_keys (parseASFResult (js ''<__proto__> OK'')) = []
   \<and> statusMatch (js ''<__proto__> Bot is ready'') = Some (js ''__proto__'', js ''Bot is ready'')
   \<and> object_keys (user (parseASFStatus (js ''<__proto__> Bot is ready''))) = []"
  by (simp add: resultMatch_proto_OK statusMatch_proto_ready parseASFResult_proto_OK
        parseASFStatus_proto_ready object_keys_def)

lemma resultMatch_proto_Fail:
  "resultMatch (js ''<__proto__> Fail'') = Some (js ''__proto__'', None, js ''Fail'')"
  by (simp add: resultMatch_def regex_eval)

lemma resultMatch_proto_NoDetail:
  "resultMatch (js ''<__proto__> OK/NoDetail'') = Some (js ''__proto__'', None, js ''OK/NoDetail'')"
  by (simp add: resultMatch_def regex_eval)

lemma parseASFResult_proto_twice:
  "parseASFResult proto_twice =
     \<lparr>own = [], proto = Some \<lparr>bot_id = None, bot_status = js ''OK/NoDetail''\<rparr>\<rparr>"
proof -
  have s: "split_nl proto_twice = [js ''<__proto__> Fail'', js ''<__proto__> OK/NoDetail'']"
    by (simp add: proto_twice_def js_def)
  have n: "js ''Fail'' \<noteq> js ''OK''" "js ''OK/NoDetail'' \<noteq> js ''OK''" by (simp_all add: js_def)
  have 1: "parseASFResult_step (js ''<__proto__> Fail'') empty_object =
             \<lparr>own = [], proto = Some \<lparr>bot_id = None, bot_status = js ''Fail''\<rparr>\<rparr>"
    using n by (simp add: parseASFResult_step_def resultMatch_proto_Fail js_assign_def empty_object_def)
  have 2: "parseASFResult_step (js ''<__proto__> OK/NoDetail'')
             \<lparr>own = [], proto = Some \<lparr>bot_id = None, bot_status = js ''Fail''\<rparr>\<rparr> =
             \<lparr>own = [], proto = Some \<lparr>bot_id = None, bot_status = js ''OK/NoDetail''\<rparr>\<rparr>"
    using n by (simp add: parseASFResult_step_def resultMatch_proto_NoDetail js_assign_def)
  show ?thesis by (simp add: parseASFResult_def s 1 2)
qed

text \<open>
  Claim C9 at the name \<^verbatim>\<open>__proto__\<close>: two matching lines with that name leave the result
  without an entry for it. For every other name the last matching line decides the entry
  (lemma \<open>parseASFResult_own_last\<close>).
\<close>

theorem parseASFResult_repeated_proto_name_no_entry:
  "resultMatch (js ''<__proto__> Fail'') = Some (js ''__proto__'', None, js ''Fail'')
   \<and> resultMatch (js ''<__proto__> OK/NoDetail'') = Some (js ''__proto__'', None, js ''OK/NoDetail'')
   \<and> split_nl proto_twice = [js ''<__proto__> Fail'', js ''<__proto__> OK/NoDetail'']
   \<and> object_keys (parseASFResult proto_twice) = []
   \<and> map_of (own (parseASFResult proto_twice)) (js ''__proto__'') = None"
proof -
  have "split_nl proto_twice = [js ''<__proto__> Fail'', js ''<__proto__> OK/NoDetail'']"
    by (simp add: proto_twice_def js_def)
  then show ?thesis
    by (simp add: resultMatch_proto_Fail resultMatch_proto_NoDetail parseASFResult_proto_twice
          object_keys_def)
qed

subsection \<open>checkConnection and checkUserLoggedIn\<close>

lemma checkConnection_loop_skip:
  assumes "\<forall>i. a \<le> i \<and> i < k \<longrightarrow> \<not> replySuccess (fetch i)" and "a \<le> k" and "k \<le> Suc maxRetries"
  shows "checkConnection_loop cfg fetch a tr =
         checkConnection_loop cfg fetch k (tr @ concat (replicate (k - a) (failedAttempt cfg)))"
  using assms
proof (induction "k - a" arbitrary: a tr)
  case 0
  then show ?case by simp
next
  case (Suc d)
  then have a: "a < k" "\<not> replySuccess (fetch a)" "\<not> a > maxRetries" by auto
  have step: "checkConnection_loop cfg fetch a tr =
              checkConnection_loop cfg fetch (a + 1) (tr @ failedAttempt cfg)"
    using a(2,3)
    by (subst checkConnection_loop.simps)
       (simp add: replySuccess_def failedAttempt_def Let_def split: asf_reply.splits)
  have "checkConnection_loop cfg fetch (a + 1) (tr @ failedAttempt cfg) =
        checkConnection_loop cfg fetch k
          ((tr @ failedAttempt cfg) @ concat (replicate (k - (a + 1)) (failedAttempt cfg)))"
    using Suc.prems Suc.hyps(2) a(1) by (intro Suc.hyps(1)) auto
  moreover have "k - a = Suc (k - (a + 1))" using a(1) by simp
  ultimately show ?case using step by simp
qed

lemma checkConnection_all_fail:
  assumes "\<forall>i. 1 \<le> i \<and> i \<le> maxRetries \<longrightarrow> \<not> replySuccess (fetch i)"
  shows "checkConnection cfg fetch =
           (Exited 1, concat (replicate maxRetries (failedAttempt cfg))
                      @ [Log T_error ''Can't connect to ASF!''])"
proof -
  have "checkConnection_loop cfg fetch 1 [] =
        checkConnection_loop cfg fetch (Suc maxRetries)
          ([] @ concat (replicate (Suc maxRetries - 1) (failedAttempt cfg)))"
    using assms by (intro checkConnection_loop_skip) (auto simp: maxRetries_def)
  also have "\<dots> = (Exited 1, concat (replicate maxRetries (failedAttempt cfg))
                      @ [Log T_error ''Can't connect to ASF!''])"
    by (subst checkConnection_loop.simps) simp
  finally show ?thesis by (simp add: checkConnection_def)
qed

lemma checkConnection_first_success:
  assumes "1 \<le> k" "k \<le> maxRetries" "replySuccess (fetch k)"
      and "\<forall>i. 1 \<le> i \<and> i < k \<longrightarrow> \<not> replySuccess (fetch i)"
  shows "checkConnection cfg fetch =
           (Returned, concat (replicate (k - 1) (failedAttempt cfg))
                      @ [Command (prefix cfg @ js ''stats'')])"
proof -
  have "checkConnection_loop cfg fetch 1 [] =
        checkConnection_loop cfg fetch k ([] @ concat (replicate (k - 1) (failedAttempt cfg)))"
    using assms by (intro checkConnection_loop_skip) auto
  also have "\<dots> = (Returned, concat (replicate (k - 1) (failedAttempt cfg))
                      @ [Command (prefix cfg @ js ''stats'')])"
    using assms(2,3)
    by (subst checkConnection_loop.simps)
       (simp add: replySuccess_def Let_def split: asf_reply.splits)
  finally show ?thesis by (simp add: checkConnection_def)
qed

lemma commandsOf_append: "commandsOf (xs @ ys) = commandsOf xs @ commandsOf ys"
  by (simp add: commandsOf_def)

lemma sleepsOf_append: "sleepsOf (xs @ ys) = sleepsOf xs @ sleepsOf ys"
  by (simp add: sleepsOf_def)

lemma commandsOf_failed:
  "commandsOf (concat (replicate n (failedAttempt cfg))) = replicate n (prefix cfg @ js ''stats'')"
  by (induction n) (simp_all add: commandsOf_def failedAttempt_def)

lemma sleepsOf_failed:
  "sleepsOf (concat (replicate n (failedAttempt cfg))) = replicate n retryDelay"
  by (induction n) (simp_all add: sleepsOf_def failedAttempt_def)

text \<open>
  Claim C6. When the queries of attempts 1 to 5 all fail, \<^verbatim>\<open>checkConnection\<close> sends exactly
  five queries, sleeps 5 seconds after each of them and then calls \<^verbatim>\<open>process.exit(1)\<close>.
  When attempt \<open>k\<close> is the first to succeed, it returns after exactly \<open>k\<close> queries and
  \<open>k - 1\<close> sleeps, and sends nothing more.
\<close>

theorem checkConnection_five_attempts:
  "((\<forall>i. 1 \<le> i \<and> i \<le> 5 \<longrightarrow> \<not> replySuccess (fetch i)) \<longrightarrow>
      fst (checkConnection cfg fetch) = Exited 1 \<and>
      commandsOf (snd (checkConnection cfg fetch)) = replicate 5 (prefix cfg @ js ''stats'') \<and>
      sleepsOf (snd (checkConnection cfg fetch)) = replicate 5 5 \<and>
      snd (checkConnection cfg fetch) =
        concat (replicate 5 (failedAttempt cfg)) @ [Log T_error ''Can't connect to ASF!''])
   \<and> (\<forall>k. 1 \<le> k \<and> k \<le> 5 \<and> replySuccess (fetch k) \<and>
          (\<forall>i. 1 \<le> i \<and> i < k \<longrightarrow> \<not> replySuccess (fetch i)) \<longrightarrow>
      fst (checkConnection cfg fetch) = Returned \<and>
      commandsOf (snd (checkConnection cfg fetch)) = replicate k (prefix cfg @ js ''stats'') \<and>
      sleepsOf (snd (checkConnection cfg fetch)) = replicate (k - 1) 5 \<and>
      snd (checkConnection cfg fetch) =
        concat (replicate (k - 1) (failedAttempt cfg)) @ [Command (prefix cfg @ js ''stats'')])"
proof (intro conjI allI impI)
  assume "\<forall>i. 1 \<le> i \<and> i \<le> 5 \<longrightarrow> \<not> replySuccess (fetch i)"
  then have "\<forall>i. 1 \<le> i \<and> i \<le> maxRetries \<longrightarrow> \<not> replySuccess (fetch i)"
    by (simp add: maxRetries_def)
  from checkConnection_all_fail[OF this, of cfg]
  have r: "checkConnection cfg fetch =
     (Exited 1, concat (replicate 5 (failedAttempt cfg)) @ [Log T_error ''Can't connect to ASF!''])"
    by (simp add: maxRetries_def)
  show "fst (checkConnection cfg fetch) = Exited 1" by (simp add: r)
  show "commandsOf (snd (checkConnection cfg fetch)) = replicate 5 (prefix cfg @ js ''stats'')"
    by (simp add: r commandsOf_append commandsOf_failed) (simp add: commandsOf_def)
  show "sleepsOf (snd (checkConnection cfg fetch)) = replicate 5 5"
    by (simp add: r sleepsOf_append sleepsOf_failed retryDelay_def) (simp add: sleepsOf_def)
  show "snd (checkConnection cfg fetch) =
        concat (replicate 5 (failedAttempt cfg)) @ [Log T_error ''Can't connect to ASF!'']"
    by (simp add: r)
next
  fix k
  assume h: "1 \<le> k \<and> k \<le> 5 \<and> replySuccess (fetch k) \<and>
          (\<forall>i. 1 \<le> i \<and> i < k \<longrightarrow> \<not> replySuccess (fetch i))"
  then have "1 \<le> k" "k \<le> maxRetries" "replySuccess (fetch k)"
    "\<forall>i. 1 \<le> i \<and> i < k \<longrightarrow> \<not> replySuccess (fetch i)"
    by (simp_all add: maxRetries_def)
  from checkConnection_first_success[OF this, of cfg]
  have r: "checkConnection cfg fetch =
     (Returned, concat (replicate (k - 1) (failedAttempt cfg)) @ [Command (prefix cfg @ js ''stats'')])" .
  show "fst (checkConnection cfg fetch) = Returned" by (simp add: r)
  have "replicate (k - 1) (prefix cfg @ js ''stats'') @ [prefix cfg @ js ''stats''] =
        replicate k (prefix cfg @ js ''stats'')"
    using h by (cases k) (simp_all add: replicate_append_same)
  then show "commandsOf (snd (checkConnection cfg fetch)) = replicate k (prefix cfg @ js ''stats'')"
    by (simp add: r commandsOf_append commandsOf_failed) (simp add: commandsOf_def)
  show "sleepsOf (snd (checkConnection cfg fetch)) = replicate (k - 1) 5"
    by (simp add: r sleepsOf_append sleepsOf_failed retryDelay_def) (simp add: sleepsOf_def)
  show "snd (checkConnection cfg fetch) =
        concat (replicate (k - 1) (failedAttempt cfg)) @ [Command (prefix cfg @ js ''stats'')]"
    by (simp add: r)
qed

theorem checkConnection_five_attempts_witness:
  "fst (checkConnection defaultConfig (\<lambda>i. FetchFailed)) = Exited 1
   \<and> commandsOf (snd (checkConnection defaultConfig (\<lambda>i. FetchFailed))) =
       replicate 5 (prefix defaultConfig @ js ''stats'')
   \<and> sleepsOf (snd (checkConnection defaultConfig (\<lambda>i. FetchFailed))) = replicate 5 5
   \<and> fst (checkConnection defaultConfig (\<lambda>i. if i = 3 then Body okBody else FetchFailed)) = Returned
   \<and> commandsOf (snd (checkConnection defaultConfig (\<lambda>i. if i = 3 then Body okBody else FetchFailed))) =
       replicate 3 (prefix defaultConfig @ js ''stats'')
   \<and> sleepsOf (snd (checkConnection defaultConfig (\<lambda>i. if i = 3 then Body okBody else FetchFailed))) =
       replicate 2 5"
proof -
  let ?f = "\<lambda>i::nat. FetchFailed"
  let ?g = "\<lambda>i::nat. if i = 3 then Body okBody else FetchFailed"
  have 1: "\<forall>i. 1 \<le> i \<and> i \<le> 5 \<longrightarrow> \<not> replySuccess (?f i)"
    by (simp add: replySuccess_def)
  have 2: "1 \<le> (3::nat) \<and> (3::nat) \<le> 5 \<and> replySuccess (?g 3) \<and>
          (\<forall>i. 1 \<le> i \<and> i < 3 \<longrightarrow> \<not> replySuccess (?g i))"
    by (simp add: replySuccess_def okBody_def)
  note a = checkConnection_five_attempts[of ?f defaultConfig, THEN conjunct1, THEN mp, OF 1]
  note b = checkConnection_five_attempts[of ?g defaultConfig, THEN conjunct2, THEN spec, THEN mp, OF 2]
  note a1 = a[THEN conjunct1] and a2 = a[THEN conjunct2, THEN conjunct1]
    and a3 = a[THEN conjunct2, THEN conjunct2, THEN conjunct1]
  note b1 = b[THEN conjunct1] and b2 = b[THEN conjunct2, THEN conjunct1]
    and b3 = b[THEN conjunct2, THEN conjunct2, THEN conjunct1]
  have b3': "sleepsOf (snd (checkConnection defaultConfig ?g)) = replicate 2 5"
    using b3 by simp
  show ?thesis by (rule conjI[OF a1 conjI[OF a2 conjI[OF a3 conjI[OF b1 conjI[OF b2 b3']]]]])
qed

lemma parseASFStatus_empty: "isDone (parseASFStatus [])"
  by (simp add: parseASFStatus_isDone statusMatch_def regex_eval)

lemma stillConnecting_nonempty:
  "stillConnecting (Body body) \<Longrightarrow> Result body \<noteq> []"
  using parseASFStatus_empty by (auto simp: stillConnecting_def)

lemma loop_step_waiting:
  assumes "stillConnecting (fetch n)"
  shows "checkUserLoggedIn_loop cfg fetch n tr =
         checkUserLoggedIn_loop cfg fetch (n + 1) (tr @ waitingPoll cfg)"
proof -
  from assms obtain body where b: "fetch n = Body body" "Success body"
      "\<not> isDone (parseASFStatus (Result body))"
    by (auto simp: stillConnecting_def split: asf_reply.splits)
  then have "Result body \<noteq> []" using parseASFStatus_empty by auto
  with b show ?thesis
    by (subst checkUserLoggedIn_loop.simps) (simp add: waitingPoll_def)
qed

lemma loop_skip_waiting:
  assumes "\<forall>i. n \<le> i \<and> i < k \<longrightarrow> stillConnecting (fetch i)" and "n \<le> k"
  shows "checkUserLoggedIn_loop cfg fetch n tr =
         checkUserLoggedIn_loop cfg fetch k (tr @ concat (replicate (k - n) (waitingPoll cfg)))"
  using assms
proof (induction "k - n" arbitrary: n tr)
  case 0
  then show ?case by simp
next
  case (Suc d)
  then have n: "n < k" "stillConnecting (fetch n)" by auto
  have "checkUserLoggedIn_loop cfg fetch (n + 1) (tr @ waitingPoll cfg) =
        checkUserLoggedIn_loop cfg fetch k
          ((tr @ waitingPoll cfg) @ concat (replicate (k - (n + 1)) (waitingPoll cfg)))"
    using Suc.prems Suc.hyps(2) n(1) by (intro Suc.hyps(1)) auto
  moreover have "k - n = Suc (k - (n + 1))" using n(1) by simp
  ultimately show ?case using loop_step_waiting[of fetch n cfg tr] n(2) by simp
qed

lemma loop_returns_decisive:
  assumes "checkUserLoggedIn_loop cfg fetch n tr = Some y"
  shows "\<exists>k\<ge>n. \<not> stillConnecting (fetch k) \<and>
           (\<forall>i. n \<le> i \<and> i < k \<longrightarrow> stillConnecting (fetch i))"
proof (rule checkUserLoggedIn_loop.raw_induct[where P="\<lambda>cfg fetch n tr y. \<exists>k\<ge>n. \<not> stillConnecting (fetch k) \<and>
           (\<forall>i. n \<le> i \<and> i < k \<longrightarrow> stillConnecting (fetch i))", OF _ assms])
  fix loop :: "config \<Rightarrow> (nat \<Rightarrow> asf_reply) \<Rightarrow> nat \<Rightarrow> event list \<Rightarrow> (outcome \<times> event list) option"
  fix cfg fetch n tr y
  assume IH: "\<And>cfg fetch n tr y. loop cfg fetch n tr = Some y \<Longrightarrow> \<exists>k\<ge>n. \<not> stillConnecting (fetch k) \<and>
           (\<forall>i. n \<le> i \<and> i < k \<longrightarrow> stillConnecting (fetch i))"
  assume eq: "(let tr1 = tr @ [Command (prefix cfg @ js ''status asf'')]
      in case fetch n of
           FetchFailed \<Rightarrow> Some (Thrown, tr1 @ [Log T_error ''Error running command''])
         | Body result \<Rightarrow>
             if Success result \<and> Result result \<noteq> []
             then if isDone (parseASFStatus (Result result))
                  then Some (Returned, tr1 @ [Log T_info ''All ASF users are connected and ready!''])
                  else loop cfg fetch (n + 1)
                         (tr1 @ [Log T_info ''ASF users are still connecting to Steam network...'',
                                 Sleep 10])
             else Some (Thrown, tr1 @ [Log T_error ''Failed to get status from ASF''])) = Some y"
  show "\<exists>k\<ge>n. \<not> stillConnecting (fetch k) \<and>
           (\<forall>i. n \<le> i \<and> i < k \<longrightarrow> stillConnecting (fetch i))"
  proof (cases "stillConnecting (fetch n)")
    case False
    then show ?thesis by (auto intro!: exI[of _ n])
  next
    case True
    then obtain body where b: "fetch n = Body body" "Success body"
      "\<not> isDone (parseASFStatus (Result body))"
      by (auto simp: stillConnecting_def split: asf_reply.splits)
    then have "Result body \<noteq> []" using parseASFStatus_empty by auto
    with b eq have "\<exists>tr'. loop cfg fetch (n + 1) tr' = Some y"
      by (simp add: Let_def) blast
    then obtain tr' where "loop cfg fetch (n + 1) tr' = Some y" ..
    from IH[OF this] obtain k where
      k: "k \<ge> n + 1" "\<not> stillConnecting (fetch k)"
         "\<forall>i. n + 1 \<le> i \<and> i < k \<longrightarrow> stillConnecting (fetch i)" by blast
    have "\<forall>i. n \<le> i \<and> i < k \<longrightarrow> stillConnecting (fetch i)"
    proof (intro allI impI)
      fix i assume "n \<le> i \<and> i < k"
      then show "stillConnecting (fetch i)" using k(3) True by (cases "i = n") auto
    qed
    with k(1,2) show ?thesis by (auto intro!: exI[of _ k])
  qed
qed

lemma loop_never_ready:
  assumes "\<forall>i. stillConnecting (fetch i)"
  shows "checkUserLoggedIn_loop cfg fetch n tr = None"
proof (cases "checkUserLoggedIn_loop cfg fetch n tr")
  case None
  then show ?thesis .
next
  case (Some y)
  from loop_returns_decisive[OF this] assms show ?thesis by blast
qed

lemma loop_fatal:
  assumes "\<forall>i<k. stillConnecting (fetch i)" and "statusFailed (fetch k)"
  shows "\<exists>msg. checkUserLoggedIn_loop cfg fetch 0 [] =
           Some (Thrown, concat (replicate k (waitingPoll cfg))
                         @ [Command (prefix cfg @ js ''status asf''), Log T_error msg])"
proof -
  have "checkUserLoggedIn_loop cfg fetch 0 [] =
        checkUserLoggedIn_loop cfg fetch k ([] @ concat (replicate (k - 0) (waitingPoll cfg)))"
    using assms(1) by (intro loop_skip_waiting) auto
  moreover have "\<exists>msg. checkUserLoggedIn_loop cfg fetch k (concat (replicate k (waitingPoll cfg))) =
           Some (Thrown, concat (replicate k (waitingPoll cfg))
                         @ [Command (prefix cfg @ js ''status asf''), Log T_error msg])"
    using assms(2)
    by (subst checkUserLoggedIn_loop.simps)
       (auto simp: statusFailed_def Let_def split: asf_reply.splits)
  ultimately show ?thesis by simp
qed

lemma loop_ready:
  assumes "\<forall>i<k. stillConnecting (fetch i)" and "allReadyReply (fetch k)"
  shows "checkUserLoggedIn_loop cfg fetch 0 [] =
           Some (Returned, concat (replicate k (waitingPoll cfg))
                         @ [Command (prefix cfg @ js ''status asf''),
                            Log T_info ''All ASF users are connected and ready!''])"
proof -
  have "checkUserLoggedIn_loop cfg fetch 0 [] =
        checkUserLoggedIn_loop cfg fetch k ([] @ concat (replicate (k - 0) (waitingPoll cfg)))"
    using assms(1) by (intro loop_skip_waiting) auto
  moreover have "checkUserLoggedIn_loop cfg fetch k (concat (replicate k (waitingPoll cfg))) =
           Some (Returned, concat (replicate k (waitingPoll cfg))
                         @ [Command (prefix cfg @ js ''status asf''),
                            Log T_info ''All ASF users are connected and ready!''])"
    using assms(2)
    by (subst checkUserLoggedIn_loop.simps)
       (auto simp: allReadyReply_def Let_def split: asf_reply.splits)
  ultimately show ?thesis by simp
qed

lemma reply_cases: "stillConnecting r \<or> statusFailed r \<or> allReadyReply r"
  using parseASFStatus_empty
  by (auto simp: stillConnecting_def statusFailed_def allReadyReply_def split: asf_reply.splits)

lemma loop_Returned_ready:
  assumes "checkUserLoggedIn_loop cfg fetch 0 [] = Some (Returned, tr)"
  shows "\<exists>k. allReadyReply (fetch k) \<and> (\<forall>i<k. stillConnecting (fetch i))"
proof -
  from loop_returns_decisive[OF assms] obtain k where
    k: "\<not> stillConnecting (fetch k)" "\<forall>i<k. stillConnecting (fetch i)" by auto
  have "\<not> statusFailed (fetch k)"
  proof
    assume "statusFailed (fetch k)"
    from loop_fatal[OF k(2) this, of cfg] assms show False by auto
  qed
  with k(1) reply_cases[of "fetch k"] have "allReadyReply (fetch k)" by blast
  with k(2) show ?thesis by blast
qed

lemma checkUserLoggedIn_Thrown:
  "checkUserLoggedIn_loop cfg fetch 0 [] = Some (Thrown, tr) \<Longrightarrow>
   checkUserLoggedIn cfg fetch hookReturns = Some (Thrown, tr)"
  by (simp add: checkUserLoggedIn_def)

lemma checkUserLoggedIn_Returned:
  "checkUserLoggedIn_loop cfg fetch 0 [] = Some (Returned, tr) \<Longrightarrow>
   checkUserLoggedIn cfg fetch hookReturns =
     Some (if hookReturns then Returned else Thrown,
           tr @ [Log T_info ''ASF users are logged in!'', Hook T_info ''ASF users are logged in!'' None])"
  by (simp add: checkUserLoggedIn_def)

lemma checkUserLoggedIn_Returned_D:
  assumes "checkUserLoggedIn cfg fetch hookReturns = Some (Returned, tr)"
  shows "\<exists>tr'. checkUserLoggedIn_loop cfg fetch 0 [] = Some (Returned, tr')"
proof (cases "checkUserLoggedIn_loop cfg fetch 0 []")
  case None
  with assms show ?thesis by (simp add: checkUserLoggedIn_def)
next
  case (Some r)
  obtain out tr' where r: "r = (out, tr')" by (cases r)
  with Some assms show ?thesis
    by (cases out) (simp_all add: checkUserLoggedIn_def)
qed

lemma sleepsOf_waiting:
  "sleepsOf (concat (replicate n (waitingPoll cfg))) = replicate n 10"
  by (induction n) (simp_all add: sleepsOf_def waitingPoll_def)

lemma commandsOf_waiting:
  "commandsOf (concat (replicate n (waitingPoll cfg))) = replicate n (prefix cfg @ js ''status asf'')"
  by (induction n) (simp_all add: commandsOf_def waitingPoll_def)

text \<open>
  Claim C7. After \<open>k\<close> replies that are successful but not all ready, a rejected fetch or
  a reply that fails the success test makes \<^verbatim>\<open>checkUserLoggedIn\<close> throw at once, with no
  further query. As long as replies are successful and not all ready the loop sleeps 10
  seconds and asks again, without bound: if all of them are so, the call never returns.
  It completes after the first reply that is all ready, and only then.
\<close>

theorem checkUserLoggedIn_retry_policy:
  "(\<forall>k. (\<forall>i<k. stillConnecting (fetch i)) \<and> statusFailed (fetch k) \<longrightarrow>
      (\<exists>msg. checkUserLoggedIn cfg fetch hookReturns =
         Some (Thrown, concat (replicate k (waitingPoll cfg))
                       @ [Command (prefix cfg @ js ''status asf''), Log T_error msg])))
   \<and> ((\<forall>i. stillConnecting (fetch i)) \<longrightarrow> checkUserLoggedIn cfg fetch hookReturns = None)
   \<and> (\<forall>k. (\<forall>i<k. stillConnecting (fetch i)) \<and> allReadyReply (fetch k) \<longrightarrow>
      (\<exists>tr. checkUserLoggedIn cfg fetch hookReturns = Some (if hookReturns then Returned else Thrown, tr) \<and>
            sleepsOf tr = replicate k 10 \<and>
            commandsOf tr = replicate (k + 1) (prefix cfg @ js ''status asf'')))
   \<and> (\<forall>tr. checkUserLoggedIn cfg fetch hookReturns = Some (Returned, tr) \<longrightarrow>
      (\<exists>k. allReadyReply (fetch k) \<and> (\<forall>i<k. stillConnecting (fetch i))))"
proof -
  have A: "\<exists>msg. checkUserLoggedIn cfg fetch hookReturns =
         Some (Thrown, concat (replicate k (waitingPoll cfg))
                       @ [Command (prefix cfg @ js ''status asf''), Log T_error msg])"
    if "(\<forall>i<k. stillConnecting (fetch i)) \<and> statusFailed (fetch k)" for k
  proof -
    from that have 1: "\<forall>i<k. stillConnecting (fetch i)" and 2: "statusFailed (fetch k)" by simp_all
    from loop_fatal[OF 1 2, of cfg] obtain msg where
      "checkUserLoggedIn_loop cfg fetch 0 [] =
           Some (Thrown, concat (replicate k (waitingPoll cfg))
                         @ [Command (prefix cfg @ js ''status asf''), Log T_error msg])" ..
    from checkUserLoggedIn_Thrown[OF this] show ?thesis ..
  qed
  have B: "checkUserLoggedIn cfg fetch hookReturns = None" if "\<forall>i. stillConnecting (fetch i)"
    using loop_never_ready[OF that, of cfg 0 "[]"] by (simp add: checkUserLoggedIn_def)
  have C: "\<exists>tr. checkUserLoggedIn cfg fetch hookReturns = Some (if hookReturns then Returned else Thrown, tr) \<and>
            sleepsOf tr = replicate k 10 \<and>
            commandsOf tr = replicate (k + 1) (prefix cfg @ js ''status asf'')"
    if "(\<forall>i<k. stillConnecting (fetch i)) \<and> allReadyReply (fetch k)" for k
  proof -
    from that have 1: "\<forall>i<k. stillConnecting (fetch i)" and 2: "allReadyReply (fetch k)" by simp_all
    let ?tr = "(concat (replicate k (waitingPoll cfg))
                         @ [Command (prefix cfg @ js ''status asf''),
                            Log T_info ''All ASF users are connected and ready!''])
               @ [Log T_info ''ASF users are logged in!'', Hook T_info ''ASF users are logged in!'' None]"
    have r: "checkUserLoggedIn cfg fetch hookReturns = Some (if hookReturns then Returned else Thrown, ?tr)"
      by (rule checkUserLoggedIn_Returned[OF loop_ready[OF 1 2]])
    have s: "sleepsOf ?tr = replicate k 10"
      by (simp add: sleepsOf_append sleepsOf_waiting) (simp add: sleepsOf_def)
    have "commandsOf ?tr = replicate k (prefix cfg @ js ''status asf'') @ [prefix cfg @ js ''status asf'']"
      by (simp add: commandsOf_append commandsOf_waiting) (simp add: commandsOf_def)
    then have c: "commandsOf ?tr = replicate (k + 1) (prefix cfg @ js ''status asf'')"
      by (simp add: replicate_append_same)
    from r s c show ?thesis by (intro exI[of _ ?tr] conjI)
  qed
  have D: "\<exists>k. allReadyReply (fetch k) \<and> (\<forall>i<k. stillConnecting (fetch i))"
    if "checkUserLoggedIn cfg fetch hookReturns = Some (Returned, tr)" for tr
  proof -
    from checkUserLoggedIn_Returned_D[OF that] obtain tr' where
      "checkUserLoggedIn_loop cfg fetch 0 [] = Some (Returned, tr')" ..
    then show ?thesis by (rule loop_Returned_ready)
  qed
  have A': "\<forall>k. (\<forall>i<k. stillConnecting (fetch i)) \<and> statusFailed (fetch k) \<longrightarrow>
      (\<exists>msg. checkUserLoggedIn cfg fetch hookReturns =
         Some (Thrown, concat (replicate k (waitingPoll cfg))
                       @ [Command (prefix cfg @ js ''status asf''), Log T_error msg]))"
    by (intro allI impI) (rule A)
  have B': "(\<forall>i. stillConnecting (fetch i)) \<longrightarrow> checkUserLoggedIn cfg fetch hookReturns = None"
    by (intro impI) (rule B)
  have C': "\<forall>k. (\<forall>i<k. stillConnecting (fetch i)) \<and> allReadyReply (fetch k) \<longrightarrow>
      (\<exists>tr. checkUserLoggedIn cfg fetch hookReturns = Some (if hookReturns then Returned else Thrown, tr) \<and>
            sleepsOf tr = replicate k 10 \<and>
            commandsOf tr = replicate (k + 1) (prefix cfg @ js ''status asf''))"
    by (intro allI impI) (rule C)
  have D': "\<forall>tr. checkUserLoggedIn cfg fetch hookReturns = Some (Returned, tr) \<longrightarrow>
      (\<exists>k. allReadyReply (fetch k) \<and> (\<forall>i<k. stillConnecting (fetch i)))"
    by (intro allI impI) (rule D)
  show ?thesis by (rule conjI[OF A' conjI[OF B' conjI[OF C' D']]])
qed

lemma stillConnecting_connectingBody: "stillConnecting (Body connectingBody)"
proof -
  have "split_nl (js ''<a> Bot is connecting to Steam network.'') =
          [js ''<a> Bot is connecting to Steam network.'']" by (simp add: js_def)
  then have "\<not> isDone (parseASFStatus (js ''<a> Bot is connecting to Steam network.''))"
    by (simp add: parseASFStatus_isDone statusMatch_connecting isConnecting_connecting)
  then show ?thesis by (simp add: stillConnecting_def connectingBody_def)
qed

lemma allReadyReply_okBody: "allReadyReply (Body okBody)"
proof -
  have "split_nl (js ''<a> Bot is ready'') = [js ''<a> Bot is ready'']" by (simp add: js_def)
  then have "isDone (parseASFStatus (js ''<a> Bot is ready''))"
    by (simp add: parseASFStatus_isDone statusMatch_ready isConnecting_ready)
  moreover have "js ''<a> Bot is ready'' \<noteq> []" by (simp add: js_def)
  ultimately show ?thesis by (simp add: allReadyReply_def okBody_def)
qed

theorem checkUserLoggedIn_retry_policy_witness:
  "(\<exists>msg. checkUserLoggedIn defaultConfig
             (\<lambda>i. if i < 2 then Body connectingBody else FetchFailed) True =
           Some (Thrown, concat (replicate 2 (waitingPoll defaultConfig))
                         @ [Command (prefix defaultConfig @ js ''status asf''), Log T_error msg]))
   \<and> checkUserLoggedIn defaultConfig (\<lambda>i. Body connectingBody) True = None
   \<and> (\<exists>tr. checkUserLoggedIn defaultConfig
             (\<lambda>i. if i < 2 then Body connectingBody else Body okBody) True = Some (Returned, tr)
          \<and> sleepsOf tr = replicate 2 10
          \<and> commandsOf tr = replicate 3 (prefix defaultConfig @ js ''status asf''))"
proof -
  let ?f = "\<lambda>i::nat. if i < 2 then Body connectingBody else FetchFailed"
  let ?g = "\<lambda>i::nat. Body connectingBody"
  let ?h = "\<lambda>i::nat. if i < 2 then Body connectingBody else Body okBody"
  have 1: "(\<forall>i<2. stillConnecting (?f i)) \<and> statusFailed (?f 2)"
    by (simp add: stillConnecting_connectingBody statusFailed_def)
  have 2: "\<forall>i. stillConnecting (?g i)"
    by (simp add: stillConnecting_connectingBody)
  have 3: "(\<forall>i<2. stillConnecting (?h i)) \<and> allReadyReply (?h 2)"
    by (simp add: stillConnecting_connectingBody allReadyReply_okBody)
  note a = checkUserLoggedIn_retry_policy[of ?f defaultConfig True, THEN conjunct1, THEN spec, THEN mp, OF 1]
  note b = checkUserLoggedIn_retry_policy[of ?g defaultConfig True, THEN conjunct2, THEN conjunct1, THEN mp, OF 2]
  note c = checkUserLoggedIn_retry_policy[of ?h defaultConfig True, THEN conjunct2, THEN conjunct2,
              THEN conjunct1, THEN spec, THEN mp, OF 3]
  have c': "\<exists>tr. checkUserLoggedIn defaultConfig ?h True = Some (Returned, tr)
          \<and> sleepsOf tr = replicate 2 10
          \<and> commandsOf tr = replicate 3 (prefix defaultConfig @ js ''status asf'')"
    using c by simp
  show ?thesis by (rule conjI[OF a conjI[OF b c']])
qed

subsection \<open>checkGame and the migration\<close>

lemma newCodes_filter: "newCodes processed codes = filter (\<lambda>code. code \<notin> set processed) codes"
  by (simp add: newCodes_def)

lemma count_newCodes:
  "count_list (newCodes processed codes) code =
     (if code \<in> set processed then 0 else count_list codes code)"
  by (induction codes) (auto simp: newCodes_filter)

lemma parseCodes_duplicateList: "parseCodes duplicateList = [a100, a200, a100]"
  by (simp add: parseCodes_def duplicateList_def a100_def a200_def js_def trim_def
        isWhiteSpace_def isLineTerminator_def)

lemma newCodes_duplicates: "newCodes [] [a100, a200, a100] = [a100, a200, a100]"
  by (simp add: newCodes_filter)

text \<open>
  Claim C8, as amended. \<^verbatim>\<open>newCodes\<close> keeps, in order and with their repetitions, the
  candidates that are not in \<^verbatim>\<open>processedLicenses\<close>: as a set it is the set difference, but
  a code listed twice stays twice. The batch is the first 40 of the reversed list, and the
  cycle submits exactly that batch. For the list \<^verbatim>\<open>["a/100", "a/200", "a/100"]\<close> and nothing
  processed, all three entries are new.
\<close>

theorem checkGame_newCodes_batch:
  "newCodes processed codes = filter (\<lambda>code. code \<notin> set processed) codes
   \<and> set (newCodes processed codes) = set codes - set processed
   \<and> (\<forall>code. code \<notin> set processed \<longrightarrow>
          count_list (newCodes processed codes) code = count_list codes code)
   \<and> batch (newCodes processed codes) = take 40 (rev (newCodes processed codes))
   \<and> length (batch (newCodes processed codes)) \<le> 40
   \<and> (\<forall>content. gist e = GistContent content \<and>
          newCodes (processedLicenses w) (parseCodes content) \<noteq> [] \<longrightarrow>
          checkGame_try e cfg w =
            claimBatch e cfg 0 (batch (newCodes (processedLicenses w) (parseCodes content))) w)
   \<and> newCodes [] [a100, a200, a100] = [a100, a200, a100]
   \<and> batch (newCodes [] [a100, a200, a100]) = [a100, a200, a100]"
proof -
  have 1: "newCodes processed codes = filter (\<lambda>code. code \<notin> set processed) codes"
    by (rule newCodes_filter)
  have 2: "set (newCodes processed codes) = set codes - set processed"
    by (auto simp: newCodes_filter)
  have 3: "\<forall>code. code \<notin> set processed \<longrightarrow>
          count_list (newCodes processed codes) code = count_list codes code"
    by (simp add: count_newCodes)
  have 4: "batch (newCodes processed codes) = take 40 (rev (newCodes processed codes))"
    by (simp add: batch_def)
  have 5: "length (batch (newCodes processed codes)) \<le> 40"
    by (simp add: batch_def)
  have 6: "\<forall>content. gist e = GistContent content \<and>
          newCodes (processedLicenses w) (parseCodes content) \<noteq> [] \<longrightarrow>
          checkGame_try e cfg w =
            claimBatch e cfg 0 (batch (newCodes (processedLicenses w) (parseCodes content))) w"
    by (auto simp: checkGame_try_def Let_def)
  have 7: "newCodes [] [a100, a200, a100] = [a100, a200, a100]"
    by (rule newCodes_duplicates)
  have 8: "batch (newCodes [] [a100, a200, a100]) = [a100, a200, a100]"
    by (simp add: newCodes_duplicates batch_def)
  show ?thesis
    by (rule conjI[OF 1 conjI[OF 2 conjI[OF 3 conjI[OF 4 conjI[OF 5 conjI[OF 6 conjI[OF 7 8]]]]]]])
qed

theorem checkGame_newCodes_batch_witness:
  "a100 \<notin> set [] \<and> count_list (newCodes [] [a100, a200, a100]) a100 = 2
   \<and> checkGame_try quietEnv defaultConfig emptyWorld =
       claimBatch quietEnv defaultConfig 0 [a100, a200, a100] emptyWorld"
proof -
  note t = checkGame_newCodes_batch[of "[]" "[a100, a200, a100]" quietEnv emptyWorld defaultConfig]
  have n: "a100 \<noteq> a200" by (simp add: a100_def a200_def js_def)
  have h1: "a100 \<notin> set []" by simp
  from t[THEN conjunct2, THEN conjunct2, THEN conjunct1, THEN spec, THEN mp, OF h1] n
  have c: "count_list (newCodes [] [a100, a200, a100]) a100 = 2" by simp
  have h2: "gist quietEnv = GistContent duplicateList \<and>
          newCodes (processedLicenses emptyWorld) (parseCodes duplicateList) \<noteq> []"
    by (simp add: quietEnv_def emptyWorld_def parseCodes_duplicateList newCodes_duplicates)
  from t[THEN conjunct2, THEN conjunct2, THEN conjunct2, THEN conjunct2, THEN conjunct2,
         THEN conjunct1, THEN spec, THEN mp, OF h2]
  have "checkGame_try quietEnv defaultConfig emptyWorld =
       claimBatch quietEnv defaultConfig 0 [a100, a200, a100] emptyWorld"
    by (simp add: emptyWorld_def parseCodes_duplicateList newCodes_duplicates batch_def)
  with h1 c show ?thesis by simp
qed

text \<open>The claim as stated fails: the duplicate does not collapse.\<close>

theorem newCodes_duplicates_counterexample:
  "parseCodes duplicateList = [a100, a200, a100]
   \<and> newCodes [] [a100, a200, a100] = [a100, a200, a100]
   \<and> newCodes [] [a100, a200, a100] \<noteq> [a100, a200]"
  by (simp add: parseCodes_duplicateList newCodes_duplicates)

lemma migration_no_marker: "migrationFile w = None \<Longrightarrow> migration g w = w"
  by (simp add: migration_def)

lemma migration_unparsable:
  "migrationFile w = Some content \<Longrightarrow> parseInt10 (trim content) = None \<Longrightarrow> migration g w = w"
  by (simp add: migration_def)

lemma migration_deletes_marker:
  assumes "migrationFile w = Some content" and "parseInt10 (trim content) = Some n"
  shows "migrationFile (migration g w) = None"
    and "Unlink \<in> set (trace (migration g w))"
  using assms
  by (cases g; simp add: migration_def addTrace_def saveProcessedLicenses_def Let_def)+

lemma migration_fetch_failed:
  assumes "migrationFile w = Some content" and "parseInt10 (trim content) = Some n"
  shows "processedLicenses (migration (GistError st) w) = processedLicenses w"
    and "processedFile (migration (GistError st) w) = processedFile w"
    and "Log T_warn ''Migration failed - could not fetch Gist for migration. Skipping...''
           \<in> set (trace (migration (GistError st) w))"
  using assms by (simp_all add: migration_def addTrace_def Let_def)

lemma migration_fetched:
  assumes "migrationFile w = Some content" and "parseInt10 (trim content) = Some n"
  shows "processedLicenses (migration (GistContent c) w) =
           setSpread (processedLicenses w @ slice0 (parseCodes c) n)"
    and "processedFile (migration (GistContent c) w) =
           setSpread (processedLicenses w @ slice0 (parseCodes c) n)"
  using assms by (simp_all add: migration_def addTrace_def saveProcessedLicenses_def Let_def)

text \<open>
  Claim C10. When the marker file exists and \<^verbatim>\<open>parseInt\<close> reads a number from it, the
  migration deletes it whatever the fetch of the gist gives, and a second run finds no
  marker and changes nothing. When the fetch fails, the processed list in memory and on
  disk is left as it was and a warning is logged. Without a marker, or with one that does
  not start with a number, nothing changes at all.
\<close>

theorem migration_marker_consumed:
  "(\<forall>content n. migrationFile w = Some content \<and> parseInt10 (trim content) = Some n \<longrightarrow>
      migrationFile (migration g w) = None \<and> Unlink \<in> set (trace (migration g w)) \<and>
      (\<forall>g'. migration g' (migration g w) = migration g w))
   \<and> (\<forall>content n st. migrationFile w = Some content \<and> parseInt10 (trim content) = Some n \<and>
          g = GistError st \<longrightarrow>
      processedLicenses (migration g w) = processedLicenses w \<and>
      processedFile (migration g w) = processedFile w \<and>
      Log T_warn ''Migration failed - could not fetch Gist for migration. Skipping...''
        \<in> set (trace (migration g w)))
   \<and> (migrationFile w = None \<or>
        (\<exists>content. migrationFile w = Some content \<and> parseInt10 (trim content) = None) \<longrightarrow>
      migration g w = w)"
proof -
  have A: "migrationFile (migration g w) = None \<and> Unlink \<in> set (trace (migration g w)) \<and>
      (\<forall>g'. migration g' (migration g w) = migration g w)"
    if "migrationFile w = Some content \<and> parseInt10 (trim content) = Some n" for content n
  proof -
    from that have 1: "migrationFile w = Some content" and 2: "parseInt10 (trim content) = Some n"
      by simp_all
    note d = migration_deletes_marker[OF 1 2, of g]
    from d(1) have "\<forall>g'. migration g' (migration g w) = migration g w"
      by (simp add: migration_no_marker)
    with d show ?thesis by simp
  qed
  have B: "processedLicenses (migration g w) = processedLicenses w \<and>
      processedFile (migration g w) = processedFile w \<and>
      Log T_warn ''Migration failed - could not fetch Gist for migration. Skipping...''
        \<in> set (trace (migration g w))"
    if "migrationFile w = Some content \<and> parseInt10 (trim content) = Some n \<and> g = GistError st"
    for content n st
  proof -
    from that have 1: "migrationFile w = Some content" and 2: "parseInt10 (trim content) = Some n"
      and 3: "g = GistError st" by simp_all
    from migration_fetch_failed[OF 1 2, of st] 3 show ?thesis by simp
  qed
  have C: "migration g w = w"
    if "migrationFile w = None \<or>
        (\<exists>content. migrationFile w = Some content \<and> parseInt10 (trim content) = None)"
    using that migration_no_marker migration_unparsable by blast
  have A': "\<forall>content n. migrationFile w = Some content \<and> parseInt10 (trim content) = Some n \<longrightarrow>
      migrationFile (migration g w) = None \<and> Unlink \<in> set (trace (migration g w)) \<and>
      (\<forall>g'. migration g' (migration g w) = migration g w)"
    by (intro allI impI) (rule A)
  have B': "\<forall>content n st. migrationFile w = Some content \<and> parseInt10 (trim content) = Some n \<and>
          g = GistError st \<longrightarrow>
      processedLicenses (migration g w) = processedLicenses w \<and>
      processedFile (migration g w) = processedFile w \<and>
      Log T_warn ''Migration failed - could not fetch Gist for migration. Skipping...''
        \<in> set (trace (migration g w))"
    by (intro allI impI) (rule B)
  have C': "migrationFile w = None \<or>
        (\<exists>content. migrationFile w = Some content \<and> parseInt10 (trim content) = None) \<longrightarrow>
      migration g w = w"
    by (intro impI) (rule C)
  show ?thesis by (rule conjI[OF A' conjI[OF B' C']])
qed

lemma parseInt10_marker: "parseInt10 (trim (js ''2'' @ [10])) = Some 2"
  by (simp add: parseInt10_def trim_def js_def isWhiteSpace_def isLineTerminator_def)

theorem migration_marker_consumed_witness:
  "migrationFile markerWorld = Some (js ''2'' @ [10])
   \<and> parseInt10 (trim (js ''2'' @ [10])) = Some 2
   \<and> migrationFile (migration (GistError (Some 401)) markerWorld) = None
   \<and> processedLicenses (migration (GistError (Some 401)) markerWorld) = [a100]
   \<and> migration (GistContent duplicateList) emptyWorld = emptyWorld"
proof -
  have h: "migrationFile markerWorld = Some (js ''2'' @ [10]) \<and>
           parseInt10 (trim (js ''2'' @ [10])) = Some 2"
    by (simp add: markerWorld_def parseInt10_marker)
  then have h': "migrationFile markerWorld = Some (js ''2'' @ [10]) \<and>
           parseInt10 (trim (js ''2'' @ [10])) = Some 2 \<and> GistError (Some 401) = GistError (Some 401)"
    by simp
  note t = migration_marker_consumed[of markerWorld "GistError (Some 401)"]
  note a = t[THEN conjunct1, THEN spec, THEN spec, THEN mp, OF h, THEN conjunct1]
  note b = t[THEN conjunct2, THEN conjunct1, THEN spec, THEN spec, THEN spec, THEN mp, OF h',
             THEN conjunct1]
  have b': "processedLicenses (migration (GistError (Some 401)) markerWorld) = [a100]"
    using b by (simp add: markerWorld_def)
  have "migrationFile emptyWorld = None \<or>
        (\<exists>content. migrationFile emptyWorld = Some content \<and> parseInt10 (trim content) = None)"
    by (simp add: emptyWorld_def)
  from migration_marker_consumed[of emptyWorld "GistContent duplicateList", THEN conjunct2,
         THEN conjunct2, THEN mp, OF this]
  have c: "migration (GistContent duplicateList) emptyWorld = emptyWorld" .
  from h a b' c show ?thesis by simp
qed

lemma js_includes_iff: "js_includes s t \<longleftrightarrow> (\<exists>pre post. s = pre @ t @ post)"
proof (induction s)
  case Nil
  show ?case by auto
next
  case (Cons c cs)
  have "take (length t) (c # cs) = t \<longleftrightarrow> (\<exists>post. c # cs = t @ post)"
  proof
    assume "take (length t) (c # cs) = t"
    then have "c # cs = t @ drop (length t) (c # cs)"
      by (metis append_take_drop_id)
    then show "\<exists>post. c # cs = t @ post" ..
  next
    assume "\<exists>post. c # cs = t @ post"
    then show "take (length t) (c # cs) = t" by auto
  qed
  moreover have "(\<exists>pre post. c # cs = pre @ t @ post) \<longleftrightarrow>
        (\<exists>post. c # cs = t @ post) \<or> (\<exists>pre post. cs = pre @ t @ post)"
  proof
    assume "\<exists>pre post. c # cs = pre @ t @ post"
    then obtain pre post where p: "c # cs = pre @ t @ post" by blast
    show "(\<exists>post. c # cs = t @ post) \<or> (\<exists>pre post. cs = pre @ t @ post)"
    proof (cases pre)
      case Nil
      with p show ?thesis by auto
    next
      case (Cons a pre')
      with p have "cs = pre' @ t @ post" by simp
      then show ?thesis by blast
    qed
  next
    assume "(\<exists>post. c # cs = t @ post) \<or> (\<exists>pre post. cs = pre @ t @ post)"
    then show "\<exists>pre post. c # cs = pre @ t @ post"
    proof
      assume "\<exists>post. c # cs = t @ post"
      then obtain post where "c # cs = [] @ t @ post" by auto
      then show ?thesis by blast
    next
      assume "\<exists>pre post. cs = pre @ t @ post"
      then obtain pre post where "c # cs = (c # pre) @ t @ post" by auto
      then show ?thesis by blast
    qed
  qed
  ultimately show ?case using Cons.IH by simp
qed

lemma hasRateLimit_iff:
  "hasRateLimit obj \<longleftrightarrow>
     (\<exists>r\<in>set (object_values obj). \<exists>pre post. bot_status r = pre @ js ''RateLimitExceeded'' @ post)"
  by (simp add: hasRateLimit_def list_ex_iff js_includes_iff)

lemma sendHookAsync_fst: "fst (sendHookAsync e t msg lic w) = hookOk e (hookCalls w)"
  by (simp add: sendHookAsync_def)

lemma sendHookAsync_snd:
  "snd (sendHookAsync e t msg lic w) =
     w\<lparr>trace := trace w @ [Hook t msg lic], hookCalls := hookCalls w + 1\<rparr>"
  by (simp add: sendHookAsync_def)

lemma catchHandler_processed: "processedLicenses (snd (catchHandler e w)) = processedLicenses w"
  by (simp add: catchHandler_def sendHookAsync_def addTrace_def split: prod.splits bool.splits)

lemma catchHandler_trace: "set (trace w) \<subseteq> set (trace (snd (catchHandler e w)))"
  by (auto simp: catchHandler_def sendHookAsync_def addTrace_def split: prod.splits bool.splits)

lemma catchHandler_not_Continue: "fst (catchHandler e w) \<noteq> Continue"
  by (simp add: catchHandler_def sendHookAsync_def addTrace_def split: prod.splits bool.splits)

lemma claimLicense_processed:
  "processedLicenses (snd (claimLicense e cfg i c w)) =
     (if licenseAdded (asf e i) then processedLicenses w @ [c] else processedLicenses w)"
proof (cases "asf e i")
  case FetchFailed
  then show ?thesis
    by (simp add: claimLicense_def licenseAdded_def Let_def catchHandler_processed addTrace_def)
next
  case (Body body)
  then show ?thesis
    by (simp add: claimLicense_def licenseAdded_def Let_def catchHandler_processed addTrace_def
          sendHookAsync_def saveProcessedLicenses_def split: bool.splits)
qed

lemma claimLicense_rateLimited:
  assumes "rateLimited (asf e i)"
  shows "rateLimitHook c \<in> set (trace (snd (claimLicense e cfg i c w)))"
    and "hookOk e (hookCalls w) \<Longrightarrow> fst (claimLicense e cfg i c w) = Continue"
    and "\<not> hookOk e (hookCalls w) \<Longrightarrow> fst (claimLicense e cfg i c w) \<noteq> Continue"
proof -
  from assms obtain body where b: "asf e i = Body body" "Success body"
    "hasRateLimit (parseASFResult (Result body))"
    by (auto simp: rateLimited_def split: asf_reply.splits)
  let ?w1 = "addTrace [Log T_error ''Rate limit exceeded, not marking as processed.'']
              (addTrace [Sleep 2, Command (prefix cfg @ js ''addlicense '' @ bots cfg @ js '' '' @ c)] w)"
  let ?h = "sendHookAsync e T_error
              ''Rate limit exceeded while processing package. Will retry in next run.'' (Some c) ?w1"
  have cl: "claimLicense e cfg i c w =
     (if fst ?h then (Continue, snd ?h) else catchHandler e (snd ?h))"
    using b by (simp add: claimLicense_def Let_def split: prod.splits bool.splits)
  have h1: "fst ?h = hookOk e (hookCalls w)"
    by (simp add: sendHookAsync_fst addTrace_def)
  have h2: "rateLimitHook c \<in> set (trace (snd ?h))"
    by (simp add: sendHookAsync_snd rateLimitHook_def)
  show "rateLimitHook c \<in> set (trace (snd (claimLicense e cfg i c w)))"
    using h2 catchHandler_trace[of "snd ?h" e] by (auto simp: cl)
  show "hookOk e (hookCalls w) \<Longrightarrow> fst (claimLicense e cfg i c w) = Continue"
    by (simp add: cl h1)
  show "\<not> hookOk e (hookCalls w) \<Longrightarrow> fst (claimLicense e cfg i c w) \<noteq> Continue"
    by (simp add: cl h1 catchHandler_not_Continue)
qed

lemma claimBatch_continue:
  "fst (claimLicense e cfg i c w) = Continue \<Longrightarrow>
   claimBatch e cfg i (c # rest) w = claimBatch e cfg (i + 1) rest (snd (claimLicense e cfg i c w))"
  by (cases "claimLicense e cfg i c w") simp

lemma claimBatch_stop:
  "fst (claimLicense e cfg i c w) \<noteq> Continue \<Longrightarrow>
   claimBatch e cfg i (c # rest) w = claimLicense e cfg i c w"
  by (cases "claimLicense e cfg i c w") (auto split: step_result.splits)

lemma licenseAdded_iff:
  "licenseAdded r \<longleftrightarrow>
     (\<exists>body. r = Body body \<and> Success body \<and>
        \<not> (\<exists>x\<in>set (object_values (parseASFResult (Result body))).
              \<exists>pre post. bot_status x = pre @ js ''RateLimitExceeded'' @ post))"
  by (cases r) (simp_all add: licenseAdded_def hasRateLimit_iff)

lemma rateLimited_iff:
  "rateLimited r \<longleftrightarrow>
     (\<exists>body. r = Body body \<and> Success body \<and>
        (\<exists>x\<in>set (object_values (parseASFResult (Result body))).
              \<exists>pre post. bot_status x = pre @ js ''RateLimitExceeded'' @ post))"
  by (cases r) (simp_all add: rateLimited_def hasRateLimit_iff)

text \<open>
  Claim C2, as amended. One submission appends its code to \<^verbatim>\<open>processedLicenses\<close> exactly when
  the reply has \<^verbatim>\<open>Success\<close> true and no value of the parsed object has a status that contains
  \<^verbatim>\<open>RateLimitExceeded\<close>. When some value has, the code is not appended and
  \<^verbatim>\<open>sendHookAsync("error", ...)\<close> is called; the loop goes on with the next code when that
  call returns, and stops with a fatal result when it throws.
\<close>

theorem claimLicense_rate_limit_policy:
  "processedLicenses (snd (claimLicense e cfg i c w)) =
     (if licenseAdded (asf e i) then processedLicenses w @ [c] else processedLicenses w)
   \<and> (licenseAdded (asf e i) \<longleftrightarrow>
        (\<exists>body. asf e i = Body body \<and> Success body \<and>
           \<not> (\<exists>x\<in>set (object_values (parseASFResult (Result body))).
                 \<exists>pre post. bot_status x = pre @ js ''RateLimitExceeded'' @ post)))
   \<and> (rateLimited (asf e i) \<longleftrightarrow>
        (\<exists>body. asf e i = Body body \<and> Success body \<and>
           (\<exists>x\<in>set (object_values (parseASFResult (Result body))).
                 \<exists>pre post. bot_status x = pre @ js ''RateLimitExceeded'' @ post)))
   \<and> (rateLimited (asf e i) \<longrightarrow>
        processedLicenses (snd (claimLicense e cfg i c w)) = processedLicenses w \<and>
        rateLimitHook c \<in> set (trace (snd (claimLicense e cfg i c w))) \<and>
        (hookOk e (hookCalls w) \<longrightarrow>
           claimBatch e cfg i (c # rest) w =
             claimBatch e cfg (i + 1) rest (snd (claimLicense e cfg i c w))) \<and>
        (\<not> hookOk e (hookCalls w) \<longrightarrow>
           claimBatch e cfg i (c # rest) w = claimLicense e cfg i c w \<and>
           fst (claimLicense e cfg i c w) \<noteq> Continue))"
proof -
  have 1: "processedLicenses (snd (claimLicense e cfg i c w)) =
     (if licenseAdded (asf e i) then processedLicenses w @ [c] else processedLicenses w)"
    by (rule claimLicense_processed)
  have 4: "processedLicenses (snd (claimLicense e cfg i c w)) = processedLicenses w \<and>
        rateLimitHook c \<in> set (trace (snd (claimLicense e cfg i c w))) \<and>
        (hookOk e (hookCalls w) \<longrightarrow>
           claimBatch e cfg i (c # rest) w =
             claimBatch e cfg (i + 1) rest (snd (claimLicense e cfg i c w))) \<and>
        (\<not> hookOk e (hookCalls w) \<longrightarrow>
           claimBatch e cfg i (c # rest) w = claimLicense e cfg i c w \<and>
           fst (claimLicense e cfg i c w) \<noteq> Continue)"
    if r: "rateLimited (asf e i)"
  proof -
    from r have "\<not> licenseAdded (asf e i)"
      by (auto simp: rateLimited_def licenseAdded_def split: asf_reply.splits)
    then have a: "processedLicenses (snd (claimLicense e cfg i c w)) = processedLicenses w"
      by (simp add: 1)
    note b = claimLicense_rateLimited[OF r, where c=c and cfg=cfg and w=w]
    have c1: "claimBatch e cfg i (c # rest) w =
             claimBatch e cfg (i + 1) rest (snd (claimLicense e cfg i c w))"
      if "hookOk e (hookCalls w)"
      by (rule claimBatch_continue[OF b(2)[OF that]])
    have c2: "claimBatch e cfg i (c # rest) w = claimLicense e cfg i c w \<and>
           fst (claimLicense e cfg i c w) \<noteq> Continue"
      if "\<not> hookOk e (hookCalls w)"
      using claimBatch_stop[OF b(3)[OF that]] b(3)[OF that] by simp
    from a b(1) c1 c2 show ?thesis by blast
  qed
  then have R4: "rateLimited (asf e i) \<longrightarrow>
        processedLicenses (snd (claimLicense e cfg i c w)) = processedLicenses w \<and>
        rateLimitHook c \<in> set (trace (snd (claimLicense e cfg i c w))) \<and>
        (hookOk e (hookCalls w) \<longrightarrow>
           claimBatch e cfg i (c # rest) w =
             claimBatch e cfg (i + 1) rest (snd (claimLicense e cfg i c w))) \<and>
        (\<not> hookOk e (hookCalls w) \<longrightarrow>
           claimBatch e cfg i (c # rest) w = claimLicense e cfg i c w \<and>
           fst (claimLicense e cfg i c w) \<noteq> Continue)"
    by (intro impI)
  show ?thesis
    by (rule conjI[OF 1 conjI[OF licenseAdded_iff conjI[OF rateLimited_iff R4]]])
qed

lemma resultMatch_rateLimited:
  "resultMatch (js ''<bot1> ID: app/200 | Status: RateLimitExceeded'') =
     Some (js ''bot1'', Some (js ''app/200''), js ''RateLimitExceeded'')"
  by (simp add: resultMatch_def regex_eval)

lemma resultMatch_added:
  "resultMatch (js ''<bot1> ID: app/200 | Status: OK | Items: app/200'') =
     Some (js ''bot1'', Some (js ''app/200''), js ''OK | Items: app/200'')"
  by (simp add: resultMatch_def regex_eval)

lemma bot1_not_proto: "js ''bot1'' \<noteq> js ''__proto__''"
  by (simp add: js_def)

lemma parseASFResult_rateLimited:
  "parseASFResult (js ''<bot1> ID: app/200 | Status: RateLimitExceeded'') =
     \<lparr>own = [(js ''bot1'', \<lparr>bot_id = Some (js ''app/200''), bot_status = js ''RateLimitExceeded''\<rparr>)],
      proto = None\<rparr>"
proof -
  let ?l = "js ''<bot1> ID: app/200 | Status: RateLimitExceeded''"
  have "split_nl ?l = [?l]" by (simp add: js_def)
  then have "parseASFResult ?l = parseASFResult_step ?l empty_object"
    by (simp add: parseASFResult_def)
  also have "\<dots> = js_assign empty_object (js ''bot1'')
       \<lparr>bot_id = Some (js ''app/200''),
        bot_status = (if js ''RateLimitExceeded'' \<noteq> js ''OK'' then js ''RateLimitExceeded''
                      else js ''OK -> Not available for this account'')\<rparr>"
    by (simp add: parseASFResult_step_def resultMatch_rateLimited)
  also have "\<dots> = \<lparr>own = [(js ''bot1'', \<lparr>bot_id = Some (js ''app/200''), bot_status = js ''RateLimitExceeded''\<rparr>)],
      proto = None\<rparr>"
  proof -
    have "js ''RateLimitExceeded'' \<noteq> js ''OK''" by (simp add: js_def)
    then show ?thesis using bot1_not_proto by (simp add: js_assign_def empty_object_def)
  qed
  finally show ?thesis .
qed

lemma parseASFResult_added:
  "parseASFResult (js ''<bot1> ID: app/200 | Status: OK | Items: app/200'') =
     \<lparr>own = [(js ''bot1'', \<lparr>bot_id = Some (js ''app/200''), bot_status = js ''OK | Items: app/200''\<rparr>)],
      proto = None\<rparr>"
proof -
  let ?l = "js ''<bot1> ID: app/200 | Status: OK | Items: app/200''"
  have "split_nl ?l = [?l]" by (simp add: js_def)
  then have "parseASFResult ?l = parseASFResult_step ?l empty_object"
    by (simp add: parseASFResult_def)
  also have "\<dots> = js_assign empty_object (js ''bot1'')
       \<lparr>bot_id = Some (js ''app/200''),
        bot_status = (if js ''OK | Items: app/200'' \<noteq> js ''OK'' then js ''OK | Items: app/200''
                      else js ''OK -> Not available for this account'')\<rparr>"
    by (simp add: parseASFResult_step_def resultMatch_added)
  also have "\<dots> = \<lparr>own = [(js ''bot1'', \<lparr>bot_id = Some (js ''app/200''), bot_status = js ''OK | Items: app/200''\<rparr>)],
      proto = None\<rparr>"
  proof -
    have "js ''OK | Items: app/200'' \<noteq> js ''OK''" by (simp add: js_def)
    then show ?thesis using bot1_not_proto by (simp add: js_assign_def empty_object_def)
  qed
  finally show ?thesis .
qed

lemma rateLimited_body: "rateLimited (Body rateLimitedBody)"
  by (simp add: rateLimited_def rateLimitedBody_def parseASFResult_rateLimited hasRateLimit_def
        object_values_def) (simp add: js_def)

lemma licenseAdded_body: "licenseAdded (Body addedBody)"
  by (simp add: licenseAdded_def addedBody_def parseASFResult_added hasRateLimit_def
        object_values_def) (simp add: js_def)

lemma parseCodes_twoCodes: "parseCodes twoCodes = [a100, a200]"
  by (simp add: parseCodes_def twoCodes_def a100_def a200_def js_def trim_def
        isWhiteSpace_def isLineTerminator_def)

lemma batch_twoCodes: "batch (newCodes [] (parseCodes twoCodes)) = [a200, a100]"
  by (simp add: parseCodes_twoCodes newCodes_filter batch_def)

lemma hasRateLimit_body: "hasRateLimit (parseASFResult (Result rateLimitedBody))"
  using rateLimited_body by (simp add: rateLimited_def)

lemma claimLicense_failingHook:
  "hookCalls w = 1 \<Longrightarrow>
   fst (claimLicense failingHookEnv cfg 0 c w) = Throw \<and>
   commandsOf (trace (snd (claimLicense failingHookEnv cfg 0 c w))) =
     commandsOf (trace w) @ [prefix cfg @ js ''addlicense '' @ bots cfg @ js '' '' @ c] \<and>
   hookCalls (snd (claimLicense failingHookEnv cfg 0 c w)) = 3"
proof -
  assume h: "hookCalls w = 1"
  have s: "Success rateLimitedBody" by (simp add: rateLimitedBody_def)
  have a: "asf failingHookEnv 0 = Body rateLimitedBody" by (simp add: failingHookEnv_def)
  have k: "hookOk failingHookEnv (Suc 0) = False" "hookOk failingHookEnv (Suc (Suc 0)) = False"
    by (simp_all add: failingHookEnv_def)
  show ?thesis
    using h
    by (simp add: claimLicense_def Let_def a s hasRateLimit_body sendHookAsync_def addTrace_def
          catchHandler_def k commandsOf_append) (simp add: commandsOf_def)
qed

text \<open>
  The claim as stated fails: the first submission of the batch is rate-limited, the
  notification throws, and the second code of the batch is never submitted.
\<close>

theorem claimLicense_rate_limit_stops_counterexample:
  "rateLimited (asf failingHookEnv 0)
   \<and> batch (newCodes (processedLicenses emptyWorld) (parseCodes twoCodes)) = [a200, a100]
   \<and> fst (checkGame failingHookEnv defaultConfig emptyWorld) = Thrown
   \<and> commandsOf (trace (snd (checkGame failingHookEnv defaultConfig emptyWorld))) =
       [prefix defaultConfig @ js ''addlicense '' @ bots defaultConfig @ js '' '' @ a200]"
proof -
  define w0 where
    "w0 = snd (consoleAndWebhookAsync failingHookEnv T_info ''Checking for new packages...'' emptyWorld)"
  have r: "rateLimited (asf failingHookEnv 0)"
    by (simp add: failingHookEnv_def rateLimited_body)
  have b: "batch (newCodes (processedLicenses emptyWorld) (parseCodes twoCodes)) = [a200, a100]"
    by (simp add: emptyWorld_def batch_twoCodes)
  have c0: "consoleAndWebhookAsync failingHookEnv T_info ''Checking for new packages...'' emptyWorld
              = (True, w0)"
    by (simp add: w0_def consoleAndWebhookAsync_def sendHookAsync_def failingHookEnv_def
          emptyWorld_def addTrace_def)
  have w0: "hookCalls w0 = 1" "processedLicenses w0 = []" "commandsOf (trace w0) = []"
    by (simp_all add: w0_def consoleAndWebhookAsync_def sendHookAsync_def emptyWorld_def
          addTrace_def commandsOf_def)
  note cl = claimLicense_failingHook[OF w0(1), of defaultConfig a200]
  note cl1 = cl[THEN conjunct1] and cl2 = cl[THEN conjunct2, THEN conjunct1]
    and hc = cl[THEN conjunct2, THEN conjunct2]
  have st: "claimBatch failingHookEnv defaultConfig 0 [a200, a100] w0 =
            claimLicense failingHookEnv defaultConfig 0 a200 w0"
    by (rule claimBatch_stop) (simp add: cl1)
  have g: "gist failingHookEnv = GistContent twoCodes" by (simp add: failingHookEnv_def)
  have n: "newCodes [] (parseCodes twoCodes) \<noteq> []"
    by (simp add: parseCodes_twoCodes newCodes_filter)
  have t: "checkGame_try failingHookEnv defaultConfig w0 =
           claimLicense failingHookEnv defaultConfig 0 a200 w0"
  proof -
    have "checkGame_try failingHookEnv defaultConfig w0 =
          claimBatch failingHookEnv defaultConfig 0 (batch (newCodes [] (parseCodes twoCodes))) w0"
      using n by (simp add: checkGame_try_def g Let_def w0(2) del: claimBatch.simps)
    also have "\<dots> = claimBatch failingHookEnv defaultConfig 0 [a200, a100] w0"
      by (simp only: batch_twoCodes)
    also note st
    finally show ?thesis .
  qed
  define w1 where "w1 = snd (claimLicense failingHookEnv defaultConfig 0 a200 w0)"
  have t': "checkGame_try failingHookEnv defaultConfig w0 = (Throw, w1)"
    unfolding t w1_def by (rule prod_eqI) (simp_all only: fst_conv snd_conv cl1)
  have "checkGame failingHookEnv defaultConfig emptyWorld =
      (Thrown, snd (sendHookAsync failingHookEnv T_error
                       ''Failed to fetch Steam codes from GitHub Gist. Check the logs for details.''
                       None (addTrace [Log T_error ''Error fetching GitHub Gist''] w1)))"
    unfolding checkGame_def c0 prod.case bool.case t' step_result.case
    by (simp add: sendHookAsync_def addTrace_def failingHookEnv_def hc[folded w1_def])
  then have "fst (checkGame failingHookEnv defaultConfig emptyWorld) = Thrown"
    and "commandsOf (trace (snd (checkGame failingHookEnv defaultConfig emptyWorld))) =
         commandsOf (trace w1)"
    by (simp_all add: sendHookAsync_def addTrace_def commandsOf_append) (simp add: commandsOf_def)
  then have "fst (checkGame failingHookEnv defaultConfig emptyWorld) = Thrown"
    and "commandsOf (trace (snd (checkGame failingHookEnv defaultConfig emptyWorld))) =
         [prefix defaultConfig @ js ''addlicense '' @ bots defaultConfig @ js '' '' @ a200]"
    by (simp_all only: w1_def cl2 w0(3) append_Nil)
  then show ?thesis by (intro conjI r b)
qed

theorem claimLicense_rate_limit_policy_witness:
  "rateLimited (asf politeEnv 0) \<and> hookOk politeEnv (hookCalls emptyWorld)
   \<and> processedLicenses (snd (claimLicense politeEnv defaultConfig 0 a200 emptyWorld)) = []
   \<and> rateLimitHook a200 \<in> set (trace (snd (claimLicense politeEnv defaultConfig 0 a200 emptyWorld)))
   \<and> claimBatch politeEnv defaultConfig 0 [a200, a100] emptyWorld =
       claimBatch politeEnv defaultConfig 1 [a100]
         (snd (claimLicense politeEnv defaultConfig 0 a200 emptyWorld))
   \<and> licenseAdded (asf addingEnv 0)
   \<and> processedLicenses (snd (claimLicense addingEnv defaultConfig 0 a200 emptyWorld)) = [a200]"
proof -
  have r: "rateLimited (asf politeEnv 0)" by (simp add: politeEnv_def rateLimited_body)
  have h: "hookOk politeEnv (hookCalls emptyWorld)" by (simp add: politeEnv_def)
  have l: "licenseAdded (asf addingEnv 0)" by (simp add: addingEnv_def licenseAdded_body)
  note p = claimLicense_rate_limit_policy[of politeEnv defaultConfig 0 a200 emptyWorld "[a100]"]
  note p4 = p[THEN conjunct2, THEN conjunct2, THEN conjunct2, THEN mp, OF r]
  have 1: "processedLicenses (snd (claimLicense politeEnv defaultConfig 0 a200 emptyWorld)) = []"
    using p4[THEN conjunct1] by (simp add: emptyWorld_def)
  note 2 = p4[THEN conjunct2, THEN conjunct1]
  have 3: "claimBatch politeEnv defaultConfig 0 [a200, a100] emptyWorld =
       claimBatch politeEnv defaultConfig 1 [a100]
         (snd (claimLicense politeEnv defaultConfig 0 a200 emptyWorld))"
    using p4[THEN conjunct2, THEN conjunct2, THEN conjunct1, THEN mp, OF h]
    by (simp only: add_0 One_nat_def plus_nat.add_0)
  note q = claimLicense_rate_limit_policy[of addingEnv defaultConfig 0 a200 emptyWorld "[]",
             THEN conjunct1]
  have 4: "processedLicenses (snd (claimLicense addingEnv defaultConfig 0 a200 emptyWorld)) = [a200]"
    unfolding q using l by (simp add: emptyWorld_def)
  show ?thesis
    by (rule conjI[OF r conjI[OF h conjI[OF 1 conjI[OF 2 conjI[OF 3 conjI[OF l 4]]]]]])
qed

subsection \<open>The webhook queue\<close>


lemma attemptTimes_append: "attemptTimes (xs @ ys) = attemptTimes xs @ attemptTimes ys"
  by (simp add: attemptTimes_def)


lemma enqueued_append: "enqueued (xs @ ys) = enqueued xs @ enqueued ys"
  by (simp add: enqueued_def)


















end
